theory Spec2Isabelle
  imports Complex_Main "HOL-Library.Multiset"
begin

section \<open>Data model (types.ts)\<close>

text \<open>
  JavaScript numbers that carry measurements (lengths, widths, thicknesses, areas, weights)
  are modelled as exact reals; identifiers are integers and quantities are natural numbers
  (the data model gives every quantity as a count \<open>\<ge> 0\<close>).  Field names carry a short prefix
  per interface, because several interfaces of the source share the names \<open>id\<close>, \<open>length\<close>,
  \<open>width\<close>, \<open>quantity\<close>, \<open>layouts\<close> and \<open>unplacedParts\<close>.
\<close>

record Material =
  m_name :: string
  m_density :: real

record Sheet =
  s_id :: string
  s_length :: real
  s_width :: real
  s_thickness :: real
  s_grade :: string
  s_quantity :: nat
  s_isExpanded :: bool

record Part =
  p_id :: int
  p_name :: string
  p_length :: real
  p_width :: real
  p_thickness :: real
  p_grade :: string
  p_quantity :: nat
  p_originalId :: int

record PlacedPart = Part +
  pp_x :: real
  pp_y :: real
  pp_rotated :: bool

record SheetLayout =
  sl_sheet :: Sheet
  sl_sheetIndex :: nat
  sl_placedParts :: "PlacedPart list"
  sl_usedArea :: real
  sl_wasteArea :: real
  sl_wastePercentage :: real
  sl_usedWeight :: real
  sl_wasteWeight :: real

record SheetNestingResult =
  sr_layouts :: "SheetLayout list"
  sr_unplacedParts :: "Part list"
  sr_totalSheetsUsed :: "(string \<times> nat) list"
  sr_totalUsedWeight :: real
  sr_totalWasteWeight :: real
  sr_totalWastePercentage :: real
  sr_totalUsedArea :: real
  sr_totalSheetArea :: real

record LinearPart =
  lp_id :: int
  lp_length :: real
  lp_quantity :: nat
  lp_effectiveLength :: real
  lp_rawMaterial :: string

record CutPart =
  c_id :: int
  c_length :: real
  c_effectiveLength :: real
  c_instanceId :: string
  c_rawMaterial :: string

record StockLayout =
  st_stockIndex :: nat
  st_stockLength :: real
  st_cuts :: "CutPart list"
  st_usedLength :: real
  st_wasteLength :: real
  st_wastePercentage :: real
  st_rawMaterial :: string

record LinearNestingResult =
  lr_layouts :: "StockLayout list"
  lr_unplacedParts :: "LinearPart list"
  lr_totalStockUsed :: nat
  lr_totalWaste :: real
  lr_totalWastePercentage :: real

datatype RotationOption = NONE | NINETY | FREE

datatype OptimizationGoal = PRIORITIZE_SPEED | MINIMIZE_WASTE

text \<open>The anonymous object \<open>{ x, y, rotated }\<close> returned by the position finder.\<close>

record Position =
  pos_x :: real
  pos_y :: real
  pos_rotated :: bool

section \<open>The position finder (nestingService.ts, canPlace and findBestPosition)\<close>

text \<open>
  Horizontal and vertical extent of a placed part: \<open>other.rotated ? other.length : other.width\<close>
  and \<open>other.rotated ? other.width : other.length\<close>.
\<close>

definition extentH :: "PlacedPart \<Rightarrow> real" where
  "extentH other = (if pp_rotated other then p_length other else p_width other)"

definition extentV :: "PlacedPart \<Rightarrow> real" where
  "extentV other = (if pp_rotated other then p_width other else p_length other)"

text \<open>The overlap test of \<open>canPlace\<close> for a rectangle \<open>(w, h)\<close> at \<open>(px, py)\<close>.\<close>

definition overlaps :: "real \<times> real \<Rightarrow> real \<times> real \<Rightarrow> PlacedPart \<Rightarrow> real \<Rightarrow> bool" where
  "overlaps part pos other partToPartDist =
     (fst pos < pp_x other + extentH other + partToPartDist \<and>
      pp_x other < fst pos + fst part + partToPartDist \<and>
      snd pos < pp_y other + extentV other + partToPartDist \<and>
      pp_y other < snd pos + snd part + partToPartDist)"

fun noOverlap :: "real \<times> real \<Rightarrow> real \<times> real \<Rightarrow> PlacedPart list \<Rightarrow> real \<Rightarrow> bool" where
  "noOverlap part pos [] partToPartDist = True"
| "noOverlap part pos (other # others) partToPartDist =
     (if overlaps part pos other partToPartDist then False
      else noOverlap part pos others partToPartDist)"

definition canPlace ::
  "real \<times> real \<Rightarrow> real \<times> real \<Rightarrow> Sheet \<Rightarrow> PlacedPart list \<Rightarrow> real \<Rightarrow> real \<Rightarrow> bool" where
  "canPlace part pos sheet placedParts partToPartDist partToSheetDist =
     (if fst pos < partToSheetDist \<or> snd pos < partToSheetDist then False
      else if fst pos + fst part > s_length sheet - partToSheetDist then False
      else if snd pos + snd part > s_width sheet - partToSheetDist then False
      else noOverlap part pos placedParts partToPartDist)"

text \<open>
  The candidate points of \<open>tryPlacing\<close>: the sheet corner, then for every placed part the
  point to its right and the point below it, in the order of \<open>placedParts\<close>.
\<close>

definition candidatePoints :: "PlacedPart list \<Rightarrow> real \<Rightarrow> real \<Rightarrow> (real \<times> real) list" where
  "candidatePoints placedParts partToPartDist partToSheetDist =
     (partToSheetDist, partToSheetDist) #
     concat (map (\<lambda>p. [(pp_x p + extentH p + partToPartDist, pp_y p),
                        (pp_x p, pp_y p + extentV p + partToPartDist)]) placedParts)"

text \<open>
  The test \<open>point.y < bestY || (point.y === bestY && point.x < bestX)\<close>.  The source starts
  with \<open>bestY = bestX = Infinity\<close> and afterwards keeps them equal to the coordinates of
  \<open>bestPos\<close>; the model reads them from \<open>bestPos\<close>, and \<open>None\<close> stands for the initial
  infinities, below which every point lies.
\<close>

definition improves :: "real \<times> real \<Rightarrow> Position option \<Rightarrow> bool" where
  "improves point bestPos =
     (case bestPos of
        None \<Rightarrow> True
      | Some b \<Rightarrow> snd point < pos_y b \<or> (snd point = pos_y b \<and> fst point < pos_x b))"

fun tryPoints ::
  "real \<times> real \<Rightarrow> bool \<Rightarrow> Sheet \<Rightarrow> PlacedPart list \<Rightarrow> real \<Rightarrow> real \<Rightarrow>
   (real \<times> real) list \<Rightarrow> Position option \<Rightarrow> Position option" where
  "tryPoints dims rotated sheet placedParts d1 d2 [] bestPos = bestPos"
| "tryPoints dims rotated sheet placedParts d1 d2 (point # points) bestPos =
     tryPoints dims rotated sheet placedParts d1 d2 points
       (if canPlace dims point sheet placedParts d1 d2 \<and> improves point bestPos
        then Some \<lparr>pos_x = fst point, pos_y = snd point, pos_rotated = rotated\<rparr>
        else bestPos)"

definition tryPlacing ::
  "real \<Rightarrow> real \<Rightarrow> bool \<Rightarrow> Sheet \<Rightarrow> PlacedPart list \<Rightarrow> real \<Rightarrow> real \<Rightarrow>
   Position option \<Rightarrow> Position option" where
  "tryPlacing width height rotated sheet placedParts partToPartDist partToSheetDist bestPos =
     tryPoints (width, height) rotated sheet placedParts partToPartDist partToSheetDist
       (candidatePoints placedParts partToPartDist partToSheetDist) bestPos"

definition findBestPosition ::
  "('a Part_scheme) \<Rightarrow> Sheet \<Rightarrow> PlacedPart list \<Rightarrow> real \<Rightarrow> real \<Rightarrow> RotationOption \<Rightarrow>
   Position option" where
  "findBestPosition part sheet placedParts partToPartDist partToSheetDist rotation =
     (let bestPos = tryPlacing (p_width part) (p_length part) False sheet placedParts
                      partToPartDist partToSheetDist None
      in if rotation \<noteq> NONE
         then tryPlacing (p_length part) (p_width part) True sheet placedParts
                partToPartDist partToSheetDist bestPos
         else bestPos)"


section \<open>JavaScript helpers used by the packers\<close>

text \<open>
  Number-to-string conversion (inside template literals) and \<open>parseFloat\<close> are built-ins of
  the language, not code of the repository.  The packers take them as a parameter; \<open>None\<close>
  stands for the result \<open>NaN\<close> of \<open>parseFloat\<close>, which is equal to no number.
\<close>

record NumberOps =
  numToString :: "real \<Rightarrow> string"
  parseFloat :: "string \<Rightarrow> real option"

text \<open>
  An object literal \<open>{}\<close> used as a dictionary with string keys is an association list of its
  own properties in insertion order.  A lookup \<open>acc[key]\<close> also finds the members that every
  object inherits from \<open>Object.prototype\<close>; all of them are truthy and none is an array.
\<close>

definition objectPrototypeNames :: "string list" where
  "objectPrototypeNames =
     [''constructor'', ''__defineGetter__'', ''__defineSetter__'', ''hasOwnProperty'',
      ''__lookupGetter__'', ''__lookupSetter__'', ''isPrototypeOf'', ''propertyIsEnumerable'',
      ''toString'', ''valueOf'', ''__proto__'', ''toLocaleString'']"

text \<open>
  \<open>pushGroup\<close> is \<open>if (!acc[key]) acc[key] = []; acc[key].push(part)\<close> for a key that names no
  inherited member: the own property is created when it is missing and the value is appended.
  For a key in \<open>objectPrototypeNames\<close> the lookup is truthy, no array is created and
  \<open>acc[key].push\<close> throws a \<open>TypeError\<close>; the callers below say where that can happen.
\<close>

fun pushGroup :: "string \<Rightarrow> 'a \<Rightarrow> (string \<times> 'a list) list \<Rightarrow> (string \<times> 'a list) list" where
  "pushGroup key v [] = [(key, [v])]"
| "pushGroup key v ((k, vs) # acc) =
     (if k = key then (k, vs @ [v]) # acc else (k, vs) # pushGroup key v acc)"

text \<open>
  \<open>for (const key in obj)\<close> visits the keys that are array indices (canonical decimal numerals
  below \<open>2^32 - 1\<close>) first, in ascending numeric order, and then all other keys in insertion
  order.
\<close>

definition isDigit :: "char \<Rightarrow> bool" where
  "isDigit c = (c \<in> set ''0123456789'')"

definition decValue :: "string \<Rightarrow> nat" where
  "decValue s = foldl (\<lambda>n c. 10 * n + (of_char c - 48)) 0 s"

definition isArrayIndex :: "string \<Rightarrow> bool" where
  "isArrayIndex s =
     (s \<noteq> [] \<and> list_all isDigit s \<and> (hd s \<noteq> CHR ''0'' \<or> s = ''0'') \<and> decValue s < 4294967295)"

definition forInOrder :: "(string \<times> 'a) list \<Rightarrow> (string \<times> 'a) list" where
  "forInOrder obj =
     sort_key (\<lambda>kv. decValue (fst kv)) (filter (\<lambda>kv. isArrayIndex (fst kv)) obj) @
     filter (\<lambda>kv. \<not> isArrayIndex (fst kv)) obj"

text \<open>
  \<open>key.split(sep)\<close> for a one-character separator: the first segment and the list of the
  following ones (the result of \<open>split\<close> always has a first element).
\<close>

fun splitOn :: "char \<Rightarrow> string \<Rightarrow> string \<times> string list" where
  "splitOn sep [] = ([], [])"
| "splitOn sep (c # cs) =
     (let (seg, segs) = splitOn sep cs
      in if c = sep then ([], seg # segs) else (c # seg, segs))"

text \<open>
  A concrete instance of the number operations for evaluating the packers on test inputs.
  It agrees with the language on integral numbers of magnitude below \<open>10^21\<close> (whose string is
  the plain decimal numeral) and on strings that are such numerals; the test inputs below
  use no others.
\<close>

fun natToString :: "nat \<Rightarrow> string" where
  "natToString n =
     (if n < 10 then [''0123456789'' ! n]
      else natToString (n div 10) @ [''0123456789'' ! (n mod 10)])"

definition intToString :: "int \<Rightarrow> string" where
  "intToString i = (if i < 0 then ''-'' @ natToString (nat (- i)) else natToString (nat i))"

definition parseDigits :: "string \<Rightarrow> real option" where
  "parseDigits s =
     (let ds = takeWhile isDigit s in if ds = [] then None else Some (real (decValue ds)))"

definition parseInteger :: "string \<Rightarrow> real option" where
  "parseInteger s =
     (case s of
        [] \<Rightarrow> None
      | c # cs \<Rightarrow>
          if c = CHR ''-'' then map_option uminus (parseDigits cs)
          else if c = CHR ''+'' then parseDigits cs
          else parseDigits s)"

definition integralOps :: NumberOps where
  "integralOps = \<lparr>numToString = (\<lambda>r. intToString \<lfloor>r\<rfloor>), parseFloat = parseInteger\<rparr>"

section \<open>Sheet nesting (nestingService.ts, performSheetNesting)\<close>

definition partKey :: "NumberOps \<Rightarrow> Part \<Rightarrow> string" where
  "partKey ops part = p_grade part @ ''-'' @ numToString ops (p_thickness part)"

text \<open>
  The grouping \<open>parts.reduce(...)\<close> by \<open>partKey\<close>.  Every key contains a hyphen and no inherited
  member has one in its name (lemma \<open>partKey_not_inherited\<close> below), so the reducer never throws
  here.
\<close>

definition groupParts :: "NumberOps \<Rightarrow> Part list \<Rightarrow> (string \<times> Part list) list" where
  "groupParts ops parts = foldl (\<lambda>acc part. pushGroup (partKey ops part) part acc) [] parts"

text \<open>
  \<open>const [grade, thicknessStr] = key.split('-'); const thickness = parseFloat(thicknessStr)\<close>.
  A missing second segment is \<open>undefined\<close>, which \<open>parseFloat\<close> turns into \<open>NaN\<close>.
\<close>

definition splitKey :: "NumberOps \<Rightarrow> string \<Rightarrow> string \<times> real option" where
  "splitKey ops key =
     (case splitOn CHR ''-'' key of
        (grade, []) \<Rightarrow> (grade, None)
      | (grade, thicknessStr # _) \<Rightarrow> (grade, parseFloat ops thicknessStr))"

lemma partKey_not_inherited: "partKey ops part \<notin> set objectPrototypeNames"
proof
  assume "partKey ops part \<in> set objectPrototypeNames"
  moreover have "\<forall>name\<in>set objectPrototypeNames. CHR ''-'' \<notin> set name"
    by (simp add: objectPrototypeNames_def)
  moreover have "CHR ''-'' \<in> set (partKey ops part)"
    by (simp add: partKey_def)
  ultimately show False
    by blast
qed

definition sheetDefsFor :: "NumberOps \<Rightarrow> Sheet list \<Rightarrow> string \<Rightarrow> Sheet list" where
  "sheetDefsFor ops availableSheets key =
     (let (grade, thickness) = splitKey ops key
      in filter (\<lambda>s. s_grade s = grade \<and> Some (s_thickness s) = thickness) availableSheets)"

text \<open>\<open>Array(p.quantity).fill(null).map((_, i) => ({ ...p, id: p.id * 1000 + i, quantity: 1 }))\<close>\<close>

definition expandPart :: "Part \<Rightarrow> Part list" where
  "expandPart p = map (\<lambda>i. p\<lparr>p_id := p_id p * 1000 + int i, p_quantity := 1\<rparr>) [0..<p_quantity p]"

text \<open>
  \<open>sort((a, b) => b.length * b.width - a.length * a.width)\<close>: a stable sort by area,
  largest first.
\<close>

definition sortByArea :: "Part list \<Rightarrow> Part list" where
  "sortByArea ps = sort_key (\<lambda>p. - (p_length p * p_width p)) ps"

text \<open>\<open>{ ...part, ...position }\<close>\<close>

definition placeAt :: "Part \<Rightarrow> Position \<Rightarrow> PlacedPart" where
  "placeAt part position =
     Part.extend part (PlacedPart.fields (pos_x position) (pos_y position) (pos_rotated position))"

text \<open>
  The loop \<open>for (const part of partsToPlace)\<close> over one new sheet; the accumulators are
  \<open>layout.placedParts\<close> and \<open>remainingParts\<close>.
\<close>

fun placeParts ::
  "Sheet \<Rightarrow> real \<Rightarrow> real \<Rightarrow> RotationOption \<Rightarrow> Part list \<Rightarrow> PlacedPart list \<Rightarrow> Part list \<Rightarrow>
   PlacedPart list \<times> Part list" where
  "placeParts sheetDef d1 d2 rotation [] placed remainingParts = (placed, remainingParts)"
| "placeParts sheetDef d1 d2 rotation (part # parts) placed remainingParts =
     (case findBestPosition part sheetDef placed d1 d2 rotation of
        Some position \<Rightarrow>
          placeParts sheetDef d1 d2 rotation parts (placed @ [placeAt part position]) remainingParts
      | None \<Rightarrow>
          placeParts sheetDef d1 d2 rotation parts placed (remainingParts @ [part]))"

text \<open>The metrics of a committed layout.\<close>

definition volumeToWeight :: "Sheet \<Rightarrow> Material \<Rightarrow> real \<Rightarrow> real" where
  "volumeToWeight sheet material area =
     (area / 1000000) * s_thickness sheet * m_density material / 1000"

definition mkLayout :: "Sheet \<Rightarrow> nat \<Rightarrow> PlacedPart list \<Rightarrow> Material \<Rightarrow> SheetLayout" where
  "mkLayout sheetDef idx placed material =
     (let sheetArea = s_length sheetDef * s_width sheetDef;
          usedArea = foldl (\<lambda>acc p. acc + p_length p * p_width p) 0 placed;
          wasteArea = sheetArea - usedArea
      in \<lparr>sl_sheet = sheetDef, sl_sheetIndex = idx, sl_placedParts = placed,
          sl_usedArea = usedArea, sl_wasteArea = wasteArea,
          sl_wastePercentage = (if sheetArea > 0 then (wasteArea / sheetArea) * 100 else 0),
          sl_usedWeight = volumeToWeight sheetDef material usedArea,
          sl_wasteWeight = volumeToWeight sheetDef material wasteArea\<rparr>)"

definition sheetKey :: "NumberOps \<Rightarrow> Sheet \<Rightarrow> string" where
  "sheetKey ops sheetDef =
     numToString ops (s_length sheetDef) @ ''x'' @ numToString ops (s_width sheetDef) @ ''x'' @
     numToString ops (s_thickness sheetDef) @ ''-'' @ s_grade sheetDef"

text \<open>\<open>totalSheetsUsed[sheetKey] = (totalSheetsUsed[sheetKey] || 0) + 1\<close>\<close>

fun bumpCount :: "string \<Rightarrow> (string \<times> nat) list \<Rightarrow> (string \<times> nat) list" where
  "bumpCount key [] = [(key, 1)]"
| "bumpCount key ((k, n) # m) = (if k = key then (k, n + 1) # m else (k, n) # bumpCount key m)"

lemma placeParts_length:
  "placeParts sheetDef d1 d2 rotation parts placed remainingParts = (placed', remaining') \<Longrightarrow>
   length placed' + length remaining' = length parts + length placed + length remainingParts"
  by (induction parts arbitrary: placed remainingParts) (auto split: option.splits)

text \<open>
  The loop \<open>while (partsToPlace.length > 0 && sheetsUsedForThisDef < sheetQuantity)\<close>.  The
  state is \<open>partsToPlace\<close>, \<open>sheetsUsedForThisDef\<close>, \<open>layouts\<close> and \<open>totalSheetsUsed\<close>; the
  \<open>break\<close> on a sheet that takes no part leaves all of them as they are.
\<close>

function fillSheets ::
  "NumberOps \<Rightarrow> real \<Rightarrow> real \<Rightarrow> RotationOption \<Rightarrow> Material \<Rightarrow> Sheet \<Rightarrow> Part list \<Rightarrow> nat \<Rightarrow>
   SheetLayout list \<Rightarrow> (string \<times> nat) list \<Rightarrow> Part list \<times> SheetLayout list \<times> (string \<times> nat) list" where
  "fillSheets ops d1 d2 rotation material sheetDef partsToPlace sheetsUsed layouts totalSheetsUsed =
     (if partsToPlace \<noteq> [] \<and> sheetsUsed < s_quantity sheetDef then
        (case placeParts sheetDef d1 d2 rotation partsToPlace [] [] of
           (placed, remainingParts) \<Rightarrow>
             if length placed = 0 then (partsToPlace, layouts, totalSheetsUsed)
             else fillSheets ops d1 d2 rotation material sheetDef (sortByArea remainingParts)
                    (sheetsUsed + 1)
                    (layouts @ [mkLayout sheetDef (length layouts + 1) placed material])
                    (bumpCount (sheetKey ops sheetDef) totalSheetsUsed))
      else (partsToPlace, layouts, totalSheetsUsed))"
  by pat_completeness auto
termination
proof (relation "measure (\<lambda>(ops, d1, d2, rotation, material, sheetDef, partsToPlace, rest).
                            length partsToPlace)", goal_cases)
  case 1
  show ?case by simp
next
  case prems: (2 ops d1 d2 rotation material sheetDef partsToPlace sheetsUsed layouts totalSheetsUsed
          placed remainingParts)
  from prems have "placeParts sheetDef d1 d2 rotation partsToPlace [] [] = (placed, remainingParts)"
    by simp
  from placeParts_length [OF this] have "length placed + length remainingParts = length partsToPlace"
    by simp
  moreover from prems have "0 < length placed"
    by simp
  ultimately have "length remainingParts < length partsToPlace"
    by linarith
  then show ?case
    by (simp add: sortByArea_def)
qed

declare fillSheets.simps [simp del]

text \<open>The loop \<open>for (const sheetDef of sheetDefsForGroup)\<close> with its \<open>break\<close> on an empty pool.\<close>

fun useSheetDefs ::
  "NumberOps \<Rightarrow> real \<Rightarrow> real \<Rightarrow> RotationOption \<Rightarrow> Material \<Rightarrow> Sheet list \<Rightarrow> Part list \<Rightarrow>
   SheetLayout list \<Rightarrow> (string \<times> nat) list \<Rightarrow> Part list \<times> SheetLayout list \<times> (string \<times> nat) list" where
  "useSheetDefs ops d1 d2 rotation material [] partsToPlace layouts totalSheetsUsed =
     (partsToPlace, layouts, totalSheetsUsed)"
| "useSheetDefs ops d1 d2 rotation material (sheetDef # defs) partsToPlace layouts totalSheetsUsed =
     (if partsToPlace = [] then (partsToPlace, layouts, totalSheetsUsed)
      else (case fillSheets ops d1 d2 rotation material sheetDef partsToPlace 0 layouts totalSheetsUsed of
              (partsToPlace', layouts', totalSheetsUsed') \<Rightarrow>
                useSheetDefs ops d1 d2 rotation material defs partsToPlace' layouts' totalSheetsUsed'))"

text \<open>
  One turn of \<open>for (const key in partGroups)\<close>.  The state is \<open>layouts\<close>, \<open>unplacedParts\<close> and
  \<open>totalSheetsUsed\<close>.
\<close>

definition nestGroup ::
  "NumberOps \<Rightarrow> Sheet list \<Rightarrow> real \<Rightarrow> real \<Rightarrow> RotationOption \<Rightarrow> Material \<Rightarrow>
   SheetLayout list \<times> Part list \<times> (string \<times> nat) list \<Rightarrow> string \<times> Part list \<Rightarrow>
   SheetLayout list \<times> Part list \<times> (string \<times> nat) list" where
  "nestGroup ops availableSheets d1 d2 rotation material state grp =
     (case state of (layouts, unplacedParts, totalSheetsUsed) \<Rightarrow>
      case grp of (key, partsOfGroup) \<Rightarrow>
        let sheetDefsForGroup = sheetDefsFor ops availableSheets key
        in if length sheetDefsForGroup = 0 then (layouts, unplacedParts @ partsOfGroup, totalSheetsUsed)
           else (case useSheetDefs ops d1 d2 rotation material sheetDefsForGroup
                        (sortByArea (concat (map expandPart partsOfGroup))) layouts totalSheetsUsed of
                   (partsToPlace, layouts', totalSheetsUsed') \<Rightarrow>
                     (layouts', unplacedParts @ partsToPlace, totalSheetsUsed')))"

text \<open>
  The consolidation \<open>unplacedParts.reduce(...)\<close>: the first entry of \<open>acc\<close> with the same
  \<open>originalId\<close> gets \<open>quantity++\<close>, otherwise \<open>{ ...part, quantity: 1 }\<close> is appended.
\<close>

fun bumpUnplaced :: "Part \<Rightarrow> Part list \<Rightarrow> Part list" where
  "bumpUnplaced part [] = [part\<lparr>p_quantity := 1\<rparr>]"
| "bumpUnplaced part (existing # acc) =
     (if p_originalId existing = p_originalId part
      then existing\<lparr>p_quantity := p_quantity existing + 1\<rparr> # acc
      else existing # bumpUnplaced part acc)"

definition consolidateUnplaced :: "Part list \<Rightarrow> Part list" where
  "consolidateUnplaced unplacedParts = foldl (\<lambda>acc part. bumpUnplaced part acc) [] unplacedParts"

definition performSheetNesting ::
  "NumberOps \<Rightarrow> Sheet list \<Rightarrow> Part list \<Rightarrow> real \<Rightarrow> real \<Rightarrow> RotationOption \<Rightarrow> Material \<Rightarrow>
   SheetNestingResult" where
  "performSheetNesting ops availableSheets parts partToPartDist partToSheetDist rotation material =
     (case foldl (nestGroup ops availableSheets partToPartDist partToSheetDist rotation material)
             ([], [], []) (forInOrder (groupParts ops parts)) of
        (layouts, unplacedParts, totalSheetsUsed) \<Rightarrow>
          let totalSheetArea = foldl (\<lambda>acc l. acc + s_length (sl_sheet l) * s_width (sl_sheet l)) 0 layouts;
              totalUsedArea = foldl (\<lambda>acc l. acc + sl_usedArea l) 0 layouts;
              totalWasteWeight = foldl (\<lambda>acc l. acc + sl_wasteWeight l) 0 layouts;
              totalUsedWeight = foldl (\<lambda>acc l. acc + sl_usedWeight l) 0 layouts
          in \<lparr>sr_layouts = layouts,
              sr_unplacedParts = consolidateUnplaced unplacedParts,
              sr_totalSheetsUsed = totalSheetsUsed,
              sr_totalUsedWeight = totalUsedWeight,
              sr_totalWasteWeight = totalWasteWeight,
              sr_totalWastePercentage =
                (if totalSheetArea > 0 then ((totalSheetArea - totalUsedArea) / totalSheetArea) * 100 else 0),
              sr_totalUsedArea = totalUsedArea,
              sr_totalSheetArea = totalSheetArea\<rparr>)"

section \<open>Linear nesting (nestingService.ts, performLinearNesting)\<close>

text \<open>
  The code can throw at two places: \<open>acc[key].push(part)\<close> in the grouping, when a raw material
  names a member inherited from \<open>Object.prototype\<close>, and the non-null assertion
  \<open>partsInGroup.find(p => p.id === rcp.id)!\<close> followed by \<open>original.id\<close>.
\<close>

datatype error = TypeError

text \<open>
  The instances of one part: \<open>for (let i = 0; i < p.quantity; i++) allCutParts.push(...)\<close>
  with \<open>instanceId = `${p.id}-${i}`\<close>.
\<close>

definition cutInstances :: "NumberOps \<Rightarrow> LinearPart \<Rightarrow> CutPart list" where
  "cutInstances ops p =
     map (\<lambda>i. \<lparr>c_id = lp_id p, c_length = lp_length p,
                c_effectiveLength = lp_effectiveLength p,
                c_instanceId = numToString ops (of_int (lp_id p)) @ ''-'' @ numToString ops (of_nat i),
                c_rawMaterial = lp_rawMaterial p\<rparr>) [0..<lp_quantity p]"

text \<open>
  Immediate rejection and expansion, \<open>partsInGroup.forEach(...)\<close>; the accumulators are
  \<open>allCutParts\<close> and \<open>unplacedForGroup\<close>.
\<close>

fun rejectOrExpand ::
  "NumberOps \<Rightarrow> real \<Rightarrow> LinearPart list \<Rightarrow> CutPart list \<Rightarrow> LinearPart list \<Rightarrow>
   CutPart list \<times> LinearPart list" where
  "rejectOrExpand ops usableStockLength [] allCutParts unplacedForGroup =
     (allCutParts, unplacedForGroup)"
| "rejectOrExpand ops usableStockLength (p # ps) allCutParts unplacedForGroup =
     (if lp_effectiveLength p > usableStockLength
      then rejectOrExpand ops usableStockLength ps allCutParts (unplacedForGroup @ [p])
      else rejectOrExpand ops usableStockLength ps (allCutParts @ cutInstances ops p) unplacedForGroup)"

text \<open>\<open>sort((a, b) => b.effectiveLength - a.effectiveLength)\<close>: stable, longest first.\<close>

definition sortByEffectiveLength :: "CutPart list \<Rightarrow> CutPart list" where
  "sortByEffectiveLength cs = sort_key (\<lambda>c. - c_effectiveLength c) cs"

text \<open>
  The greedy accumulation, used for the baseline and for every trial:
  \<open>if (used + part.effectiveLength <= usableStockLength) { cuts.push(part); used += ... }\<close>.
\<close>

fun accumulate :: "real \<Rightarrow> CutPart list \<Rightarrow> CutPart list \<Rightarrow> real \<Rightarrow> CutPart list \<times> real" where
  "accumulate usableStockLength [] cuts used = (cuts, used)"
| "accumulate usableStockLength (part # parts) cuts used =
     (if used + c_effectiveLength part \<le> usableStockLength
      then accumulate usableStockLength parts (cuts @ [part]) (used + c_effectiveLength part)
      else accumulate usableStockLength parts cuts used)"

text \<open>
  The pseudo-random source is an input of the model: \<open>rng\<close> is the sequence of draws and a
  counter says how many have been consumed.  \<open>Math.floor(Math.random() * (j + 1))\<close> is an
  index in \<open>0..j\<close>, because \<open>Math.random()\<close> lies in \<open>[0, 1)\<close>; the model takes the next draw
  modulo \<open>j + 1\<close>, so that exactly these indices occur.  The swap reads both elements before
  it writes; both indices are below the length of the list.
\<close>

fun shuffleFrom :: "nat \<Rightarrow> 'a list \<Rightarrow> (nat \<Rightarrow> nat) \<Rightarrow> nat \<Rightarrow> 'a list \<times> nat" where
  "shuffleFrom 0 xs rng c = (xs, c)"
| "shuffleFrom (Suc j) xs rng c =
     (let k = rng c mod (Suc j + 1)
      in shuffleFrom j (xs[Suc j := xs ! k, k := xs ! Suc j]) rng (c + 1))"

definition shuffle :: "'a list \<Rightarrow> (nat \<Rightarrow> nat) \<Rightarrow> nat \<Rightarrow> 'a list \<times> nat" where
  "shuffle xs rng c = shuffleFrom (length xs - 1) xs rng c"

definition SHUFFLE_ITERATIONS :: nat where
  "SHUFFLE_ITERATIONS = 50"

text \<open>
  The trial loop.  \<open>tempRemainingParts\<close> is shuffled in place, so each trial starts from the
  order the previous one left.
\<close>

fun trials ::
  "nat \<Rightarrow> real \<Rightarrow> CutPart list \<Rightarrow> (nat \<Rightarrow> nat) \<Rightarrow> nat \<Rightarrow> CutPart list \<Rightarrow> real \<Rightarrow>
   CutPart list \<times> real \<times> nat" where
  "trials 0 usableStockLength temp rng c bestCuts bestWaste = (bestCuts, bestWaste, c)"
| "trials (Suc n) usableStockLength temp rng c bestCuts bestWaste =
     (case shuffle temp rng c of
        (temp', c') \<Rightarrow>
          (case accumulate usableStockLength temp' [] 0 of
             (currentCuts, currentUsed) \<Rightarrow>
               let currentWaste = usableStockLength - currentUsed
               in if currentWaste < bestWaste
                  then trials n usableStockLength temp' rng c' currentCuts currentWaste
                  else trials n usableStockLength temp' rng c' bestCuts bestWaste))"

text \<open>
  The choice of the cuts of one bar: the first-fit-decreasing baseline, then the trials when
  the goal asks for them and more than one instance remains.
\<close>

definition chooseCuts ::
  "real \<Rightarrow> OptimizationGoal \<Rightarrow> CutPart list \<Rightarrow> (nat \<Rightarrow> nat) \<Rightarrow> nat \<Rightarrow> CutPart list \<times> real \<times> nat" where
  "chooseCuts usableStockLength optimizationGoal allCutParts rng c =
     (case accumulate usableStockLength (sortByEffectiveLength allCutParts) [] 0 of
        (greedyCuts, usedLength) \<Rightarrow>
          if optimizationGoal = MINIMIZE_WASTE \<and> length allCutParts > 1
          then trials SHUFFLE_ITERATIONS usableStockLength allCutParts rng c
                 greedyCuts (usableStockLength - usedLength)
          else (greedyCuts, usableStockLength - usedLength, c))"

text \<open>
  The branch for an empty best bar: a \<open>Map\<close> from part id to the original part and a count,
  in insertion order.
\<close>

fun countOriginal ::
  "LinearPart \<Rightarrow> (int \<times> LinearPart \<times> nat) list \<Rightarrow> (int \<times> LinearPart \<times> nat) list" where
  "countOriginal original [] = [(lp_id original, original, 1)]"
| "countOriginal original ((k, part, cnt) # m) =
     (if k = lp_id original then (k, part, cnt + 1) # m
      else (k, part, cnt) # countOriginal original m)"

fun unplacedMapOf ::
  "LinearPart list \<Rightarrow> CutPart list \<Rightarrow> (int \<times> LinearPart \<times> nat) list \<Rightarrow>
   error + (int \<times> LinearPart \<times> nat) list" where
  "unplacedMapOf partsInGroup [] unplacedMap = Inr unplacedMap"
| "unplacedMapOf partsInGroup (rcp # rcps) unplacedMap =
     (case find (\<lambda>p. lp_id p = c_id rcp) partsInGroup of
        None \<Rightarrow> Inl TypeError
      | Some original \<Rightarrow> unplacedMapOf partsInGroup rcps (countOriginal original unplacedMap))"

definition newLayout :: "nat \<Rightarrow> real \<Rightarrow> CutPart list \<Rightarrow> string \<Rightarrow> StockLayout" where
  "newLayout idx stockLength bestCutsForThisBar rawMaterial =
     \<lparr>st_stockIndex = idx, st_stockLength = stockLength, st_cuts = bestCutsForThisBar,
      st_usedLength = foldl (\<lambda>sum c. sum + c_effectiveLength c) 0 bestCutsForThisBar,
      st_wasteLength = 0, st_wastePercentage = 0, st_rawMaterial = rawMaterial\<rparr>"

text \<open>\<open>allCutParts.filter(p => !placedInstanceIds.has(p.instanceId))\<close>\<close>

definition removePlaced :: "CutPart list \<Rightarrow> CutPart list \<Rightarrow> CutPart list" where
  "removePlaced bestCutsForThisBar allCutParts =
     filter (\<lambda>p. c_instanceId p \<notin> set (map c_instanceId bestCutsForThisBar)) allCutParts"

text \<open>Every chosen cut is one of the remaining instances; this makes the bar loop terminate.\<close>

lemma accumulate_subset:
  "set (fst (accumulate u parts cuts used)) \<subseteq> set cuts \<union> set parts"
proof (induction parts arbitrary: cuts used)
  case Nil
  show ?case by simp
next
  case (Cons a parts)
  show ?case
    using Cons.IH [of "cuts @ [a]" "used + c_effectiveLength a"] Cons.IH [of cuts used]
    by auto
qed

lemma shuffleFrom_set:
  "j < length xs \<Longrightarrow> set (fst (shuffleFrom j xs rng c)) = set xs"
proof (induction j arbitrary: xs c)
  case 0
  show ?case by simp
next
  case (Suc j)
  let ?k = "rng c mod (Suc j + 1)"
  let ?ys = "xs[Suc j := xs ! ?k, ?k := xs ! Suc j]"
  have "?k < Suc j + 1"
    by (rule mod_less_divisor) simp
  with Suc.prems have k: "?k < length xs"
    by linarith
  have "set ?ys = set xs"
    using Suc.prems k by (simp add: set_swap)
  moreover have "j < length ?ys"
    using Suc.prems by simp
  ultimately show ?case
    using Suc.IH [of ?ys "c + 1"] by (simp add: Let_def)
qed

lemma shuffle_set: "set (fst (shuffle xs rng c)) = set xs"
proof (cases xs)
  case Nil
  then show ?thesis by (simp add: shuffle_def)
next
  case (Cons a as)
  then have "length xs - 1 < length xs" by simp
  then show ?thesis
    unfolding shuffle_def by (rule shuffleFrom_set)
qed

lemma trials_subset:
  "set (fst (trials n u temp rng c bestCuts bestWaste)) \<subseteq> set bestCuts \<union> set temp"
proof (induction n arbitrary: temp c bestCuts bestWaste)
  case 0
  show ?case by simp
next
  case (Suc n)
  obtain temp' c' where sh: "shuffle temp rng c = (temp', c')"
    by (cases "shuffle temp rng c")
  obtain cur used where ac: "accumulate u temp' [] 0 = (cur, used)"
    by (cases "accumulate u temp' [] 0")
  have t: "set temp' = set temp"
    using shuffle_set [of temp rng c] sh by simp
  have cu: "set cur \<subseteq> set temp"
    using accumulate_subset [of u temp' "[]" 0] ac t by simp
  show ?case
    using Suc.IH [of temp' c' cur "u - used"] Suc.IH [of temp' c' bestCuts bestWaste] t cu
    by (auto simp: sh ac Let_def)
qed

lemma chooseCuts_subset:
  "set (fst (chooseCuts u goal allCutParts rng c)) \<subseteq> set allCutParts"
proof -
  obtain g used where ac: "accumulate u (sortByEffectiveLength allCutParts) [] 0 = (g, used)"
    by (cases "accumulate u (sortByEffectiveLength allCutParts) [] 0")
  have g: "set g \<subseteq> set allCutParts"
    using accumulate_subset [of u "sortByEffectiveLength allCutParts" "[]" 0] ac
    by (simp add: sortByEffectiveLength_def)
  show ?thesis
    using g trials_subset [of SHUFFLE_ITERATIONS u allCutParts rng c g "u - used"]
    by (auto simp: chooseCuts_def ac)
qed

lemma removePlaced_shorter:
  assumes "bestCuts \<noteq> []" and "set bestCuts \<subseteq> set allCutParts"
  shows "length (removePlaced bestCuts allCutParts) < length allCutParts"
proof -
  from assms obtain b where b: "b \<in> set bestCuts" "b \<in> set allCutParts"
    by (cases bestCuts) auto
  then have "\<not> (c_instanceId b \<notin> set (map c_instanceId bestCuts))"
    by simp
  with b(2) show ?thesis
    unfolding removePlaced_def by (intro length_filter_less)
qed

text \<open>
  The loop \<open>while (allCutParts.length > 0)\<close>.  The state is \<open>allCutParts\<close>, \<open>allLayouts\<close>,
  \<open>layoutIndexCounter\<close>, \<open>unplacedForGroup\<close> and the position in the draw sequence.
\<close>

function fillBars ::
  "real \<Rightarrow> real \<Rightarrow> OptimizationGoal \<Rightarrow> (nat \<Rightarrow> nat) \<Rightarrow> string \<Rightarrow> LinearPart list \<Rightarrow>
   CutPart list \<Rightarrow> StockLayout list \<Rightarrow> nat \<Rightarrow> LinearPart list \<Rightarrow> nat \<Rightarrow>
   error + (StockLayout list \<times> nat \<times> LinearPart list \<times> nat)" where
  "fillBars usableStockLength stockLength optimizationGoal rng rawMaterial partsInGroup
     allCutParts allLayouts layoutIndexCounter unplacedForGroup c =
     (if length allCutParts > 0 then
        (case chooseCuts usableStockLength optimizationGoal allCutParts rng c of
           (bestCutsForThisBar, bestWaste, c') \<Rightarrow>
             if length bestCutsForThisBar = 0 then
               (case unplacedMapOf partsInGroup allCutParts [] of
                  Inl e \<Rightarrow> Inl e
                | Inr unplacedMap \<Rightarrow>
                    Inr (allLayouts, layoutIndexCounter,
                         unplacedForGroup @
                           map (\<lambda>(k, part, cnt). part\<lparr>lp_quantity := cnt\<rparr>) unplacedMap,
                         c'))
             else fillBars usableStockLength stockLength optimizationGoal rng rawMaterial partsInGroup
                    (removePlaced bestCutsForThisBar allCutParts)
                    (allLayouts @ [newLayout layoutIndexCounter stockLength bestCutsForThisBar rawMaterial])
                    (layoutIndexCounter + 1) unplacedForGroup c')
      else Inr (allLayouts, layoutIndexCounter, unplacedForGroup, c))"
  by pat_completeness auto
termination
proof (relation "measure (\<lambda>(u, stockLength, goal, rng, rawMaterial, partsInGroup, allCutParts, rest).
                            length allCutParts)", goal_cases)
  case 1
  show ?case by simp
next
  case prems: (2 u stockLength goal rng rawMaterial partsInGroup allCutParts allLayouts
                 layoutIndexCounter unplacedForGroup c bestCuts rest bestWaste c')
  from prems have "fst (chooseCuts u goal allCutParts rng c) = bestCuts"
    by (metis fst_conv)
  with chooseCuts_subset [of u goal allCutParts rng c] have "set bestCuts \<subseteq> set allCutParts"
    by simp
  moreover from prems have "bestCuts \<noteq> []"
    by simp
  ultimately have "length (removePlaced bestCuts allCutParts) < length allCutParts"
    by (intro removePlaced_shorter)
  then show ?case
    by simp
qed

declare fillBars.simps [simp del]

text \<open>
  Grouping by raw material, \<open>parts.reduce((acc, part) => { ... }, {})\<close>.  The key is the raw
  material as the caller gives it; when it names an inherited member the reducer throws and
  the exception leaves \<open>performLinearNesting\<close>.
\<close>

fun groupLinearFrom ::
  "(string \<times> LinearPart list) list \<Rightarrow> LinearPart list \<Rightarrow> error + (string \<times> LinearPart list) list" where
  "groupLinearFrom acc [] = Inr acc"
| "groupLinearFrom acc (part # parts) =
     (if lp_rawMaterial part \<in> set objectPrototypeNames then Inl TypeError
      else groupLinearFrom (pushGroup (lp_rawMaterial part) part acc) parts)"

definition groupLinearParts :: "LinearPart list \<Rightarrow> error + (string \<times> LinearPart list) list" where
  "groupLinearParts parts = groupLinearFrom [] parts"

text \<open>
  One turn of \<open>for (const rawMaterial in partGroups)\<close>.  The state is \<open>allLayouts\<close>,
  \<open>allUnplacedParts\<close>, \<open>layoutIndexCounter\<close> and the position in the draw sequence.
\<close>

definition nestLinearGroup ::
  "NumberOps \<Rightarrow> real \<Rightarrow> real \<Rightarrow> OptimizationGoal \<Rightarrow> (nat \<Rightarrow> nat) \<Rightarrow>
   StockLayout list \<times> LinearPart list \<times> nat \<times> nat \<Rightarrow> string \<times> LinearPart list \<Rightarrow>
   error + (StockLayout list \<times> LinearPart list \<times> nat \<times> nat)" where
  "nestLinearGroup ops usableStockLength stockLength optimizationGoal rng state grp =
     (case state of (allLayouts, allUnplacedParts, layoutIndexCounter, c) \<Rightarrow>
      case grp of (rawMaterial, partsInGroup) \<Rightarrow>
      case rejectOrExpand ops usableStockLength partsInGroup [] [] of
        (allCutParts, unplacedForGroup) \<Rightarrow>
          (case fillBars usableStockLength stockLength optimizationGoal rng rawMaterial partsInGroup
                  allCutParts allLayouts layoutIndexCounter unplacedForGroup c of
             Inl e \<Rightarrow> Inl e
           | Inr (allLayouts', layoutIndexCounter', unplacedForGroup', c') \<Rightarrow>
               Inr (allLayouts', allUnplacedParts @ unplacedForGroup', layoutIndexCounter', c')))"

fun nestLinearGroups ::
  "NumberOps \<Rightarrow> real \<Rightarrow> real \<Rightarrow> OptimizationGoal \<Rightarrow> (nat \<Rightarrow> nat) \<Rightarrow>
   (string \<times> LinearPart list) list \<Rightarrow> StockLayout list \<times> LinearPart list \<times> nat \<times> nat \<Rightarrow>
   error + (StockLayout list \<times> LinearPart list \<times> nat \<times> nat)" where
  "nestLinearGroups ops usableStockLength stockLength optimizationGoal rng [] state = Inr state"
| "nestLinearGroups ops usableStockLength stockLength optimizationGoal rng (grp # grps) state =
     (case nestLinearGroup ops usableStockLength stockLength optimizationGoal rng state grp of
        Inl e \<Rightarrow> Inl e
      | Inr state' \<Rightarrow>
          nestLinearGroups ops usableStockLength stockLength optimizationGoal rng grps state')"

text \<open>The final pass \<open>allLayouts.forEach(...)\<close> that fills in the waste of every layout.\<close>

definition finalizeLayout :: "StockLayout \<Rightarrow> StockLayout" where
  "finalizeLayout layout =
     (let wasteLength = st_stockLength layout - st_usedLength layout
      in layout\<lparr>st_wasteLength := wasteLength,
                st_wastePercentage :=
                  (if st_stockLength layout > 0 then (wasteLength / st_stockLength layout) * 100 else 0)\<rparr>)"

text \<open>
  The consolidation \<open>allUnplacedParts.reduce(...)\<close>: the first entry of \<open>acc\<close> with the same \<open>id\<close>
  gets \<open>quantity += part.quantity\<close>, otherwise a copy of the part is appended.
\<close>

fun mergeUnplaced :: "LinearPart \<Rightarrow> LinearPart list \<Rightarrow> LinearPart list" where
  "mergeUnplaced part [] = [part]"
| "mergeUnplaced part (existing # acc) =
     (if lp_id existing = lp_id part
      then existing\<lparr>lp_quantity := lp_quantity existing + lp_quantity part\<rparr> # acc
      else existing # mergeUnplaced part acc)"

definition consolidateLinear :: "LinearPart list \<Rightarrow> LinearPart list" where
  "consolidateLinear allUnplacedParts = foldl (\<lambda>acc part. mergeUnplaced part acc) [] allUnplacedParts"

definition performLinearNesting ::
  "NumberOps \<Rightarrow> (nat \<Rightarrow> nat) \<Rightarrow> real \<Rightarrow> LinearPart list \<Rightarrow> OptimizationGoal \<Rightarrow> real \<Rightarrow> real \<Rightarrow>
   error + LinearNestingResult" where
  "performLinearNesting ops rng stockLength parts optimizationGoal leftEndAllowance rightEndAllowance =
     (let usableStockLength = stockLength - leftEndAllowance - rightEndAllowance
      in case groupLinearParts parts of
           Inl e \<Rightarrow> Inl e
         | Inr partGroups \<Rightarrow>
             (case nestLinearGroups ops usableStockLength stockLength optimizationGoal rng
                     (forInOrder partGroups) ([], [], 1, 0) of
                Inl e \<Rightarrow> Inl e
              | Inr (layouts, allUnplacedParts, layoutIndexCounter, c) \<Rightarrow>
                  let allLayouts = map finalizeLayout layouts;
                      totalWaste = foldl (\<lambda>acc layout. acc + st_wasteLength layout) 0 allLayouts;
                      totalStockLength = of_nat (length allLayouts) * stockLength
                  in Inr \<lparr>lr_layouts = allLayouts,
                          lr_unplacedParts = consolidateLinear allUnplacedParts,
                          lr_totalStockUsed = length allLayouts,
                          lr_totalWaste = totalWaste,
                          lr_totalWastePercentage =
                            (if totalStockLength > 0 then (totalWaste / totalStockLength) * 100
                             else 0)\<rparr>))"

section \<open>Test inputs\<close>

definition steel :: Material where
  "steel = \<lparr>m_name = ''MS'', m_density = 7850\<rparr>"

definition sheet300x500 :: Sheet where
  "sheet300x500 =
     \<lparr>s_id = ''sheet-1'', s_length = 300, s_width = 500, s_thickness = 2, s_grade = ''MS'',
      s_quantity = 1, s_isExpanded = True\<rparr>"

definition part450x100 :: Part where
  "part450x100 =
     \<lparr>p_id = 1, p_name = ''P1'', p_length = 450, p_width = 100, p_thickness = 2, p_grade = ''MS'',
      p_quantity = 1, p_originalId = 1\<rparr>"

definition sheet1000x500 :: Sheet where
  "sheet1000x500 =
     \<lparr>s_id = ''sheet-2'', s_length = 1000, s_width = 500, s_thickness = 2, s_grade = ''MS'',
      s_quantity = 2, s_isExpanded = True\<rparr>"

definition part400x300 :: Part where
  "part400x300 =
     \<lparr>p_id = 2, p_name = ''P2'', p_length = 400, p_width = 300, p_thickness = 2, p_grade = ''MS'',
      p_quantity = 2, p_originalId = 2\<rparr>"

definition sheetA36 :: Sheet where
  "sheetA36 =
     \<lparr>s_id = ''sheet-3'', s_length = 1000, s_width = 500, s_thickness = 2, s_grade = ''A-36'',
      s_quantity = 1, s_isExpanded = True\<rparr>"

definition sheetA :: Sheet where
  "sheetA =
     \<lparr>s_id = ''sheet-4'', s_length = 1000, s_width = 500, s_thickness = 36, s_grade = ''A'',
      s_quantity = 1, s_isExpanded = True\<rparr>"

definition partA36 :: Part where
  "partA36 =
     \<lparr>p_id = 3, p_name = ''P3'', p_length = 400, p_width = 300, p_thickness = 2, p_grade = ''A-36'',
      p_quantity = 1, p_originalId = 3\<rparr>"

definition bar2000 :: LinearPart where
  "bar2000 =
     \<lparr>lp_id = 0, lp_length = 2000, lp_quantity = 2, lp_effectiveLength = 2000, lp_rawMaterial = ''A''\<rparr>"

definition bar1000 :: LinearPart where
  "bar1000 =
     \<lparr>lp_id = 1, lp_length = 1000, lp_quantity = 1, lp_effectiveLength = 1000, lp_rawMaterial = ''A''\<rparr>"

definition bar6 :: LinearPart where
  "bar6 = \<lparr>lp_id = 0, lp_length = 6, lp_quantity = 1, lp_effectiveLength = 6, lp_rawMaterial = ''A''\<rparr>"

definition bar5 :: LinearPart where
  "bar5 = \<lparr>lp_id = 1, lp_length = 5, lp_quantity = 2, lp_effectiveLength = 5, lp_rawMaterial = ''A''\<rparr>"

definition barConstructor :: LinearPart where
  "barConstructor =
     \<lparr>lp_id = 0, lp_length = 1200, lp_quantity = 1, lp_effectiveLength = 1200,
      lp_rawMaterial = ''constructor''\<rparr>"

definition part3 :: Part where
  "part3 =
     \<lparr>p_id = 1, p_name = ''P1'', p_length = 100, p_width = 100, p_thickness = 2, p_grade = ''MS'',
      p_quantity = 3, p_originalId = 1\<rparr>"

definition bar1200 :: LinearPart where
  "bar1200 =
     \<lparr>lp_id = 0, lp_length = 1200, lp_quantity = 1, lp_effectiveLength = 1200, lp_rawMaterial = ''A''\<rparr>"

section \<open>The position finder is a bottom-left choice\<close>

text \<open>
  The two orientations of a part as (horizontal, vertical) extents, and the feasible
  (point, orientation) pairs of the specification: a candidate point at which \<open>canPlace\<close>
  accepts the orientation, the rotated orientation only when rotation is permitted.
\<close>

definition orientation :: "'a Part_scheme \<Rightarrow> bool \<Rightarrow> real \<times> real" where
  "orientation part rotated =
     (if rotated then (p_length part, p_width part) else (p_width part, p_length part))"

definition feasible ::
  "'a Part_scheme \<Rightarrow> Sheet \<Rightarrow> PlacedPart list \<Rightarrow> real \<Rightarrow> real \<Rightarrow> RotationOption \<Rightarrow> bool \<Rightarrow>
   real \<times> real \<Rightarrow> bool" where
  "feasible part sheet placedParts d1 d2 rotation rotated point =
     ((rotated \<longrightarrow> rotation \<noteq> NONE) \<and>
      point \<in> set (candidatePoints placedParts d1 d2) \<and>
      canPlace (orientation part rotated) point sheet placedParts d1 d2)"

definition positionAt :: "real \<times> real \<Rightarrow> bool \<Rightarrow> Position" where
  "positionAt point rotated = \<lparr>pos_x = fst point, pos_y = snd point, pos_rotated = rotated\<rparr>"

lemma improves_trans:
  "improves q (Some (positionAt p r)) \<Longrightarrow> improves p best \<Longrightarrow> improves q best"
  by (auto simp: improves_def positionAt_def split: option.splits)

lemma not_improves_step:
  "\<not> improves q best \<Longrightarrow> improves p best \<Longrightarrow> \<not> improves q (Some (positionAt p r))"
  by (auto simp: improves_def positionAt_def split: option.splits)

lemma tryPoints_result:
  "tryPoints dims rot sheet placed d1 d2 pts best = best \<and>
     (\<forall>q\<in>set pts. canPlace dims q sheet placed d1 d2 \<longrightarrow> \<not> improves q best)
   \<or> (\<exists>p\<in>set pts. canPlace dims p sheet placed d1 d2 \<and> improves p best \<and>
        tryPoints dims rot sheet placed d1 d2 pts best = Some (positionAt p rot) \<and>
        (\<forall>q\<in>set pts. canPlace dims q sheet placed d1 d2 \<longrightarrow> \<not> improves q (Some (positionAt p rot))))"
proof (induction pts arbitrary: best)
  case Nil
  show ?case by simp
next
  case (Cons a pts)
  let ?ok = "canPlace dims a sheet placed d1 d2 \<and> improves a best"
  show ?case
  proof (cases ?ok)
    case False
    then have step: "tryPoints dims rot sheet placed d1 d2 (a # pts) best = tryPoints dims rot sheet placed d1 d2 pts best"
      by auto
    from Cons.IH [of best] show ?thesis
    proof
      assume "tryPoints dims rot sheet placed d1 d2 pts best = best \<and>
        (\<forall>q\<in>set pts. canPlace dims q sheet placed d1 d2 \<longrightarrow> \<not> improves q best)"
      with False step show ?thesis by auto
    next
      assume "\<exists>p\<in>set pts. canPlace dims p sheet placed d1 d2 \<and> improves p best \<and>
        tryPoints dims rot sheet placed d1 d2 pts best = Some (positionAt p rot) \<and>
        (\<forall>q\<in>set pts. canPlace dims q sheet placed d1 d2 \<longrightarrow> \<not> improves q (Some (positionAt p rot)))"
      then obtain p where p: "p \<in> set pts" "canPlace dims p sheet placed d1 d2" "improves p best"
        "tryPoints dims rot sheet placed d1 d2 pts best = Some (positionAt p rot)"
        "\<forall>q\<in>set pts. canPlace dims q sheet placed d1 d2 \<longrightarrow> \<not> improves q (Some (positionAt p rot))"
        by blast
      have "canPlace dims a sheet placed d1 d2 \<longrightarrow> \<not> improves a (Some (positionAt p rot))"
        using False p(3) not_improves_step by blast
      with p step show ?thesis by auto
    qed
  next
    case True
    let ?b = "Some (positionAt a rot)"
    from True have step: "tryPoints dims rot sheet placed d1 d2 (a # pts) best = tryPoints dims rot sheet placed d1 d2 pts ?b"
      by (simp add: positionAt_def)
    have self: "\<not> improves a ?b"
      by (simp add: improves_def positionAt_def)
    from Cons.IH [of ?b] show ?thesis
    proof
      assume "tryPoints dims rot sheet placed d1 d2 pts ?b = ?b \<and>
        (\<forall>q\<in>set pts. canPlace dims q sheet placed d1 d2 \<longrightarrow> \<not> improves q ?b)"
      with True step self show ?thesis by auto
    next
      assume "\<exists>p\<in>set pts. canPlace dims p sheet placed d1 d2 \<and> improves p ?b \<and>
        tryPoints dims rot sheet placed d1 d2 pts ?b = Some (positionAt p rot) \<and>
        (\<forall>q\<in>set pts. canPlace dims q sheet placed d1 d2 \<longrightarrow> \<not> improves q (Some (positionAt p rot)))"
      then obtain p where p: "p \<in> set pts" "canPlace dims p sheet placed d1 d2" "improves p ?b"
        "tryPoints dims rot sheet placed d1 d2 pts ?b = Some (positionAt p rot)"
        "\<forall>q\<in>set pts. canPlace dims q sheet placed d1 d2 \<longrightarrow> \<not> improves q (Some (positionAt p rot))"
        by blast
      have pb: "improves p best"
        using p(3) True improves_trans by blast
      have "\<not> improves a (Some (positionAt p rot))"
        using p(3) by (auto simp: improves_def positionAt_def)
      with p pb step show ?thesis by auto
    qed
  qed
qed


lemma tryPoints_min:
  "q \<in> set pts \<Longrightarrow> canPlace dims q sheet placed d1 d2 \<Longrightarrow>
   \<not> improves q (tryPoints dims rot sheet placed d1 d2 pts best)"
  using tryPoints_result [of dims rot sheet placed d1 d2 pts best] by auto

lemma tryPoints_keeps:
  "\<not> improves q best \<Longrightarrow> \<not> improves q (tryPoints dims rot sheet placed d1 d2 pts best)"
  using tryPoints_result [of dims rot sheet placed d1 d2 pts best]
  by (auto dest: not_improves_step)

lemma tryPoints_source:
  "tryPoints dims rot sheet placed d1 d2 pts best = best \<or>
   (\<exists>p\<in>set pts. canPlace dims p sheet placed d1 d2 \<and> improves p best \<and>
      tryPoints dims rot sheet placed d1 d2 pts best = Some (positionAt p rot))"
  using tryPoints_result [of dims rot sheet placed d1 d2 pts best] by auto

lemma findBestPosition_unfold:
  "findBestPosition part sheet placed d1 d2 rotation =
     (let pts = candidatePoints placed d1 d2;
          best0 = tryPoints (orientation part False) False sheet placed d1 d2 pts None
      in if rotation \<noteq> NONE
         then tryPoints (orientation part True) True sheet placed d1 d2 pts best0
         else best0)"
  by (simp add: findBestPosition_def tryPlacing_def orientation_def Let_def)

lemma findBestPosition_min:
  assumes "feasible part sheet placed d1 d2 rotation rotated point"
  shows "\<not> improves point (findBestPosition part sheet placed d1 d2 rotation)"
proof -
  let ?pts = "candidatePoints placed d1 d2"
  let ?best0 = "tryPoints (orientation part False) False sheet placed d1 d2 ?pts None"
  from assms have pt: "point \<in> set ?pts"
    and cp: "canPlace (orientation part rotated) point sheet placed d1 d2"
    and rot: "rotated \<Longrightarrow> rotation \<noteq> NONE"
    by (auto simp: feasible_def)
  show ?thesis
  proof (cases rotated)
    case False
    with pt cp have "\<not> improves point ?best0"
      by (simp add: tryPoints_min)
    then show ?thesis
      by (simp add: findBestPosition_unfold Let_def tryPoints_keeps)
  next
    case True
    with rot have "rotation \<noteq> NONE" by simp
    with True pt cp show ?thesis
      by (simp add: findBestPosition_unfold Let_def tryPoints_min)
  qed
qed

lemma findBestPosition_feasible:
  assumes "findBestPosition part sheet placed d1 d2 rotation = Some b"
  shows "feasible part sheet placed d1 d2 rotation (pos_rotated b) (pos_x b, pos_y b)"
proof -
  let ?pts = "candidatePoints placed d1 d2"
  let ?best0 = "tryPoints (orientation part False) False sheet placed d1 d2 ?pts None"
  have first: "?best0 = Some b \<Longrightarrow> ?thesis"
    using tryPoints_source [of "orientation part False" False sheet placed d1 d2 ?pts None]
    by (auto simp: feasible_def positionAt_def)
  show ?thesis
  proof (cases "rotation = NONE")
    case True
    with assms first show ?thesis
      by (simp add: findBestPosition_unfold Let_def)
  next
    case False
    with assms have res: "tryPoints (orientation part True) True sheet placed d1 d2 ?pts ?best0 = Some b"
      by (simp add: findBestPosition_unfold Let_def)
    from tryPoints_source [of "orientation part True" True sheet placed d1 d2 ?pts ?best0]
    show ?thesis
    proof
      assume "tryPoints (orientation part True) True sheet placed d1 d2 ?pts ?best0 = ?best0"
      with res first show ?thesis by simp
    next
      assume "\<exists>p\<in>set ?pts. canPlace (orientation part True) p sheet placed d1 d2 \<and> improves p ?best0 \<and>
        tryPoints (orientation part True) True sheet placed d1 d2 ?pts ?best0 = Some (positionAt p True)"
      with res False show ?thesis
        by (auto simp: feasible_def positionAt_def)
    qed
  qed
qed

lemma findBestPosition_prefers_unrotated:
  assumes res: "findBestPosition part sheet placed d1 d2 rotation = Some b"
    and unrot: "feasible part sheet placed d1 d2 rotation False (pos_x b, pos_y b)"
  shows "pos_rotated b = False"
proof (rule ccontr)
  assume "pos_rotated b \<noteq> False"
  then have rotd: "pos_rotated b" by simp
  let ?pts = "candidatePoints placed d1 d2"
  let ?best0 = "tryPoints (orientation part False) False sheet placed d1 d2 ?pts None"
  from unrot have n0: "\<not> improves (pos_x b, pos_y b) ?best0"
    by (simp add: feasible_def tryPoints_min)
  have first: "?best0 \<noteq> Some b"
    using tryPoints_source [of "orientation part False" False sheet placed d1 d2 ?pts None] rotd
    by (auto simp: positionAt_def)
  have nn: "rotation \<noteq> NONE"
    using res first by (auto simp: findBestPosition_unfold Let_def)
  with res have r2: "tryPoints (orientation part True) True sheet placed d1 d2 ?pts ?best0 = Some b"
    by (simp add: findBestPosition_unfold Let_def)
  from tryPoints_source [of "orientation part True" True sheet placed d1 d2 ?pts ?best0] r2 first
  obtain p where "improves p ?best0" "Some b = Some (positionAt p True)"
    by auto
  then have "improves (pos_x b, pos_y b) ?best0"
    by (simp add: positionAt_def)
  with n0 show False by simp
qed

lemma findBestPosition_None:
  assumes "findBestPosition part sheet placed d1 d2 rotation = None"
  shows "\<not> feasible part sheet placed d1 d2 rotation rotated point"
  using findBestPosition_min [of part sheet placed d1 d2 rotation rotated point] assms
  by (auto simp: improves_def)

text \<open>
  Claim C7: \<open>findBestPosition\<close> returns a feasible candidate point with the smallest \<open>y\<close>,
  ties broken by the smallest \<open>x\<close>, among both orientations (the rotated one only when
  rotation is permitted); when an unrotated and a rotated candidate attain the same minimal
  point, the result has \<open>rotated = false\<close>; it returns \<open>null\<close> exactly when no pair is
  feasible.
\<close>

theorem findBestPosition_bottom_left:
  "case findBestPosition part sheet placedParts d1 d2 rotation of
     None \<Rightarrow> (\<forall>rotated point. \<not> feasible part sheet placedParts d1 d2 rotation rotated point)
   | Some b \<Rightarrow>
       feasible part sheet placedParts d1 d2 rotation (pos_rotated b) (pos_x b, pos_y b) \<and>
       (\<forall>rotated point. feasible part sheet placedParts d1 d2 rotation rotated point \<longrightarrow>
          pos_y b < snd point \<or> (pos_y b = snd point \<and> pos_x b \<le> fst point)) \<and>
       (feasible part sheet placedParts d1 d2 rotation False (pos_x b, pos_y b) \<longrightarrow>
          pos_rotated b = False)"
proof (cases "findBestPosition part sheet placedParts d1 d2 rotation")
  case None
  then show ?thesis
    by (simp add: findBestPosition_None)
next
  case (Some b)
  have "pos_y b < snd point \<or> (pos_y b = snd point \<and> pos_x b \<le> fst point)"
    if "feasible part sheet placedParts d1 d2 rotation rotated point" for rotated point
    using findBestPosition_min [OF that] Some by (auto simp: improves_def)
  with Some findBestPosition_feasible [OF Some] findBestPosition_prefers_unrotated [OF Some]
  show ?thesis by simp
qed


theorem findBestPosition_bottom_left_witness:
  "findBestPosition part400x300 sheet1000x500 [] 0 0 NINETY
     = Some \<lparr>pos_x = 0, pos_y = 0, pos_rotated = False\<rparr>
   \<and> feasible part400x300 sheet1000x500 [] 0 0 NINETY False (0, 0)
   \<and> feasible part400x300 sheet1000x500 [] 0 0 NINETY True (0, 0)"
proof -
  have f: "feasible part400x300 sheet1000x500 [] 0 0 NINETY False (0, 0)"
    and t: "feasible part400x300 sheet1000x500 [] 0 0 NINETY True (0, 0)"
    and pts: "candidatePoints [] 0 0 = [(0, 0)]"
    by code_simp+
  obtain b where b: "findBestPosition part400x300 sheet1000x500 [] 0 0 NINETY = Some b"
    using findBestPosition_bottom_left [of part400x300 sheet1000x500 "[]" 0 0 NINETY] f
    by (cases "findBestPosition part400x300 sheet1000x500 [] 0 0 NINETY") auto
  from findBestPosition_bottom_left [of part400x300 sheet1000x500 "[]" 0 0 NINETY] b
  have in_pts: "(pos_x b, pos_y b) \<in> set (candidatePoints [] 0 0)"
    and tie: "feasible part400x300 sheet1000x500 [] 0 0 NINETY False (pos_x b, pos_y b)
                \<longrightarrow> pos_rotated b = False"
    by (simp_all add: feasible_def)
  from in_pts pts have "pos_x b = 0" "pos_y b = 0"
    by simp_all
  with tie f have "b = \<lparr>pos_x = 0, pos_y = 0, pos_rotated = False\<rparr>"
    by simp
  with b f t show ?thesis
    by simp
qed

section \<open>Scenario B: the part that fits in one orientation only\<close>

text \<open>
  Claim C2: on one sheet of length 300 and width 500 with rotation enabled and zero
  clearances, the part of length 450 and width 100 is placed, only the rotated orientation
  fits, and the placed part has \<open>rotated = true\<close>.  The callers' fit checks and the second
  packer of the repository measure the length of an unrotated part along the length of the
  sheet, as the claim does.  \<open>canPlace\<close> is called with the width of the unrotated part as its
  horizontal extent and tests it against \<open>sheet.length\<close>, so on this input the code accepts
  the unrotated orientation at the origin, rejects the rotated one, and returns the part with
  \<open>rotated = false\<close>.
\<close>

theorem scenarioB_unrotated:
  "performSheetNesting integralOps [sheet300x500] [part450x100] 0 0 NINETY steel =
     \<lparr>sr_layouts =
        [\<lparr>sl_sheet = sheet300x500, sl_sheetIndex = 1,
          sl_placedParts =
            [\<lparr>p_id = 1000, p_name = ''P1'', p_length = 450, p_width = 100, p_thickness = 2,
              p_grade = ''MS'', p_quantity = 1, p_originalId = 1,
              pp_x = 0, pp_y = 0, pp_rotated = False\<rparr>],
          sl_usedArea = 45000, sl_wasteArea = 105000, sl_wastePercentage = 70,
          sl_usedWeight = 1413 / 2000, sl_wasteWeight = 3297 / 2000\<rparr>],
      sr_unplacedParts = [], sr_totalSheetsUsed = [(''300x500x2-MS'', 1)],
      sr_totalUsedWeight = 1413 / 2000, sr_totalWasteWeight = 3297 / 2000,
      sr_totalWastePercentage = 70, sr_totalUsedArea = 45000, sr_totalSheetArea = 150000\<rparr>
   \<and> canPlace (p_width part450x100, p_length part450x100) (0, 0) sheet300x500 [] 0 0
   \<and> \<not> canPlace (p_length part450x100, p_width part450x100) (0, 0) sheet300x500 [] 0 0
   \<and> candidatePoints [] 0 0 = [(0, 0)]"
  by code_simp

section \<open>Conservation of quantities\<close>

text \<open>
  Claim C1: for every part identity, the quantity placed plus the quantity reported unplaced
  equals the requested quantity, also for a group without a matching sheet definition.
  The code loses quantity there: a part row with quantity 3 whose group has no sheet is pushed
  to \<open>unplacedParts\<close> unexpanded, and the consolidation, which counts one per entry, reports
  it with quantity 1 while nothing is placed.
\<close>

theorem no_capacity_group_loses_quantity:
  "sr_layouts (performSheetNesting integralOps [] [part3] 0 0 NONE steel) = []
   \<and> sr_unplacedParts (performSheetNesting integralOps [] [part3] 0 0 NONE steel)
       = [part3\<lparr>p_quantity := 1\<rparr>]
   \<and> p_quantity part3 = 3"
  by code_simp

section \<open>Placed parts keep their clearance\<close>

text \<open>
  The overlap test of \<open>canPlace\<close> between two placed parts, each with the extents of its own
  orientation.
\<close>

definition footprintOverlap :: "real \<Rightarrow> PlacedPart \<Rightarrow> PlacedPart \<Rightarrow> bool" where
  "footprintOverlap gap a b = overlaps (extentH a, extentV a) (pp_x a, pp_y a) b gap"

definition pairwiseClear :: "real \<Rightarrow> PlacedPart list \<Rightarrow> bool" where
  "pairwiseClear gap pps =
     (\<forall>i<length pps. \<forall>j<length pps. i \<noteq> j \<longrightarrow> \<not> footprintOverlap gap (pps ! i) (pps ! j))"

lemma footprintOverlap_sym: "footprintOverlap gap a b = footprintOverlap gap b a"
  by (auto simp: footprintOverlap_def overlaps_def)

lemma noOverlap_iff:
  "noOverlap part pos others gap = (\<forall>other\<in>set others. \<not> overlaps part pos other gap)"
  by (induction others) auto

lemma placeAt_fields [simp]:
  "pp_x (placeAt part position) = pos_x position"
  "pp_y (placeAt part position) = pos_y position"
  "pp_rotated (placeAt part position) = pos_rotated position"
  "p_length (placeAt part position) = p_length part"
  "p_width (placeAt part position) = p_width part"
  "p_grade (placeAt part position) = p_grade part"
  "p_thickness (placeAt part position) = p_thickness part"
  "p_originalId (placeAt part position) = p_originalId part"
  "p_id (placeAt part position) = p_id part"
  "p_quantity (placeAt part position) = p_quantity part"
  by (simp_all add: placeAt_def Part.extend_def PlacedPart.fields_def)

lemma placeAt_footprint:
  "(extentH (placeAt part position), extentV (placeAt part position))
     = orientation part (pos_rotated position)"
  by (simp add: extentH_def extentV_def orientation_def)

lemma pairwiseClear_snoc:
  assumes "pairwiseClear gap pps" and "\<forall>other\<in>set pps. \<not> footprintOverlap gap new other"
  shows "pairwiseClear gap (pps @ [new])"
  unfolding pairwiseClear_def
proof (intro allI impI)
  fix i j
  assume i: "i < length (pps @ [new])" and j: "j < length (pps @ [new])" and ij: "i \<noteq> j"
  consider "i < length pps" "j < length pps" | "i = length pps" "j < length pps"
    | "i < length pps" "j = length pps"
    using i j ij by (cases "i < length pps"; cases "j < length pps") auto
  then show "\<not> footprintOverlap gap ((pps @ [new]) ! i) ((pps @ [new]) ! j)"
  proof cases
    case 1
    with assms(1) ij show ?thesis
      by (simp add: pairwiseClear_def nth_append)
  next
    case 2
    with assms(2) show ?thesis
      by (simp add: nth_append)
  next
    case 3
    with assms(2) have "\<not> footprintOverlap gap new (pps ! i)"
      by simp
    with 3 show ?thesis
      by (simp add: nth_append footprintOverlap_sym [of gap "pps ! i" new])
  qed
qed

lemma findBestPosition_clear:
  assumes "findBestPosition part sheet placed d1 d2 rotation = Some position"
  shows "\<forall>other\<in>set placed. \<not> footprintOverlap d1 (placeAt part position) other"
proof -
  from findBestPosition_feasible [OF assms]
  have "canPlace (orientation part (pos_rotated position)) (pos_x position, pos_y position)
          sheet placed d1 d2"
    by (simp add: feasible_def)
  then have "noOverlap (orientation part (pos_rotated position)) (pos_x position, pos_y position)
          placed d1"
    by (simp add: canPlace_def split: if_splits)
  then show ?thesis
    by (simp add: noOverlap_iff footprintOverlap_def placeAt_footprint)
qed

lemma placeParts_clear:
  "pairwiseClear d1 placed \<Longrightarrow>
   pairwiseClear d1 (fst (placeParts sheetDef d1 d2 rotation parts placed remainingParts))"
proof (induction parts arbitrary: placed remainingParts)
  case Nil
  then show ?case by simp
next
  case (Cons part parts)
  show ?case
  proof (cases "findBestPosition part sheetDef placed d1 d2 rotation")
    case None
    with Cons show ?thesis by simp
  next
    case (Some position)
    from findBestPosition_clear [OF Some] Cons.prems
    have "pairwiseClear d1 (placed @ [placeAt part position])"
      by (rule pairwiseClear_snoc [rotated])
    from Cons.IH [OF this] Some show ?thesis by simp
  qed
qed

lemma pairwiseClear_Nil: "pairwiseClear gap []"
  by (simp add: pairwiseClear_def)

lemma placeParts_remaining_subset:
  "set (snd (placeParts sheetDef d1 d2 rotation parts placed remainingParts))
     \<subseteq> set remainingParts \<union> set parts"
proof (induction parts arbitrary: placed remainingParts)
  case Nil
  show ?case by simp
next
  case (Cons part parts)
  show ?case
    using Cons.IH [of "placed @ [placeAt part (the (findBestPosition part sheetDef placed d1 d2 rotation))]" remainingParts]
      Cons.IH [of placed "remainingParts @ [part]"]
    by (auto split: option.splits)
qed

text \<open>
  Every layout of the result is built by \<open>mkLayout\<close> from the parts that \<open>placeParts\<close> put on
  a fresh sheet of a definition selected for the group; a property of all such layouts is a
  property of all layouts of the result.
\<close>

lemma fillSheets_invariant:
  assumes "\<forall>l\<in>set layouts. Q l"
    and "\<And>parts idx. set parts \<subseteq> set partsToPlace \<Longrightarrow>
           Q (mkLayout sheetDef idx (fst (placeParts sheetDef d1 d2 rotation parts [] [])) material)"
  shows "(\<forall>l\<in>set (fst (snd (fillSheets ops d1 d2 rotation material sheetDef partsToPlace
                               sheetsUsed layouts totalSheetsUsed))). Q l) \<and>
         set (fst (fillSheets ops d1 d2 rotation material sheetDef partsToPlace
                               sheetsUsed layouts totalSheetsUsed)) \<subseteq> set partsToPlace"
  using assms
proof (induction ops d1 d2 rotation material sheetDef partsToPlace sheetsUsed layouts totalSheetsUsed
       rule: fillSheets.induct)
  case (1 ops d1 d2 rotation material sheetDef partsToPlace sheetsUsed layouts totalSheetsUsed)
  obtain placed remainingParts where pp:
    "placeParts sheetDef d1 d2 rotation partsToPlace [] [] = (placed, remainingParts)"
    by (cases "placeParts sheetDef d1 d2 rotation partsToPlace [] []")
  show ?case
  proof (cases "partsToPlace \<noteq> [] \<and> sheetsUsed < s_quantity sheetDef \<and> length placed \<noteq> 0")
    case False
    with pp "1.prems"(1) show ?thesis
      by (subst (1 2) fillSheets.simps) auto
  next
    case True
    have rem: "set (sortByArea remainingParts) \<subseteq> set partsToPlace"
      using placeParts_remaining_subset [of sheetDef d1 d2 rotation partsToPlace "[]" "[]"] pp
      by (simp add: sortByArea_def)
    have newQ: "Q (mkLayout sheetDef (length layouts + 1) placed material)"
      using "1.prems"(2) [of partsToPlace "length layouts + 1"] pp by simp
    have step: "fillSheets ops d1 d2 rotation material sheetDef partsToPlace sheetsUsed layouts totalSheetsUsed
       = fillSheets ops d1 d2 rotation material sheetDef (sortByArea remainingParts) (sheetsUsed + 1)
           (layouts @ [mkLayout sheetDef (length layouts + 1) placed material])
           (bumpCount (sheetKey ops sheetDef) totalSheetsUsed)"
      using True pp by (subst fillSheets.simps) simp
    have "(\<forall>l\<in>set (fst (snd (fillSheets ops d1 d2 rotation material sheetDef (sortByArea remainingParts) (sheetsUsed + 1)
           (layouts @ [mkLayout sheetDef (length layouts + 1) placed material])
           (bumpCount (sheetKey ops sheetDef) totalSheetsUsed)))). Q l) \<and>
         set (fst (fillSheets ops d1 d2 rotation material sheetDef (sortByArea remainingParts) (sheetsUsed + 1)
           (layouts @ [mkLayout sheetDef (length layouts + 1) placed material])
           (bumpCount (sheetKey ops sheetDef) totalSheetsUsed))) \<subseteq> set (sortByArea remainingParts)"
    proof (rule "1.IH" [OF _ pp [symmetric]])
      show "partsToPlace \<noteq> [] \<and> sheetsUsed < s_quantity sheetDef" using True by simp
      show "length placed \<noteq> 0" using True by simp
      show "\<forall>l\<in>set (layouts @ [mkLayout sheetDef (length layouts + 1) placed material]). Q l"
        using "1.prems"(1) newQ by simp
      show "Q (mkLayout sheetDef idx (fst (placeParts sheetDef d1 d2 rotation parts [] [])) material)"
        if "set parts \<subseteq> set (sortByArea remainingParts)" for parts idx
        using "1.prems"(2) [of parts idx] that rem by blast
    qed
    with step rem show ?thesis by auto
  qed
qed


lemma useSheetDefs_invariant:
  assumes "\<forall>l\<in>set layouts. Q l"
    and "\<And>sheetDef parts idx. sheetDef \<in> set defs \<Longrightarrow> set parts \<subseteq> set partsToPlace \<Longrightarrow>
           Q (mkLayout sheetDef idx (fst (placeParts sheetDef d1 d2 rotation parts [] [])) material)"
  shows "\<forall>l\<in>set (fst (snd (useSheetDefs ops d1 d2 rotation material defs partsToPlace
                               layouts totalSheetsUsed))). Q l"
  using assms
proof (induction defs arbitrary: partsToPlace layouts totalSheetsUsed)
  case Nil
  then show ?case by simp
next
  case (Cons sheetDef defs)
  show ?case
  proof (cases "partsToPlace = []")
    case True
    with Cons.prems(1) show ?thesis by simp
  next
    case False
    obtain parts' layouts' totals' where fs:
      "fillSheets ops d1 d2 rotation material sheetDef partsToPlace 0 layouts totalSheetsUsed
         = (parts', layouts', totals')"
      by (cases "fillSheets ops d1 d2 rotation material sheetDef partsToPlace 0 layouts totalSheetsUsed")
    have "(\<forall>l\<in>set (fst (snd (fillSheets ops d1 d2 rotation material sheetDef partsToPlace 0
                               layouts totalSheetsUsed))). Q l) \<and>
         set (fst (fillSheets ops d1 d2 rotation material sheetDef partsToPlace 0
                               layouts totalSheetsUsed)) \<subseteq> set partsToPlace"
      by (rule fillSheets_invariant [OF Cons.prems(1)]) (simp add: Cons.prems(2))
    with fs have l': "\<forall>l\<in>set layouts'. Q l" and p': "set parts' \<subseteq> set partsToPlace"
      by simp_all
    have "\<forall>l\<in>set (fst (snd (useSheetDefs ops d1 d2 rotation material defs parts' layouts' totals'))). Q l"
    proof (rule Cons.IH [OF l'])
      show "Q (mkLayout sd idx (fst (placeParts sd d1 d2 rotation parts [] [])) material)"
        if "sd \<in> set defs" "set parts \<subseteq> set parts'" for sd parts idx
        using Cons.prems(2) [of sd parts idx] that p' by auto
    qed
    with False fs show ?thesis by simp
  qed
qed

lemma nestGroup_invariant:
  assumes "\<forall>l\<in>set (fst state). Q l"
    and "\<And>sheetDef parts idx. sheetDef \<in> set (sheetDefsFor ops availableSheets (fst grp)) \<Longrightarrow>
           set parts \<subseteq> set (concat (map expandPart (snd grp))) \<Longrightarrow>
           Q (mkLayout sheetDef idx (fst (placeParts sheetDef d1 d2 rotation parts [] [])) material)"
  shows "\<forall>l\<in>set (fst (nestGroup ops availableSheets d1 d2 rotation material state grp)). Q l"
proof -
  obtain layouts unplacedParts totalSheetsUsed where st: "state = (layouts, unplacedParts, totalSheetsUsed)"
    by (cases state)
  obtain key partsOfGroup where g: "grp = (key, partsOfGroup)"
    by (cases grp)
  let ?defs = "sheetDefsFor ops availableSheets key"
  let ?pool = "sortByArea (concat (map expandPart partsOfGroup))"
  have "\<forall>l\<in>set (fst (snd (useSheetDefs ops d1 d2 rotation material ?defs ?pool layouts totalSheetsUsed))). Q l"
  proof (rule useSheetDefs_invariant)
    show "\<forall>l\<in>set layouts. Q l" using assms(1) st by simp
    show "Q (mkLayout sd idx (fst (placeParts sd d1 d2 rotation parts [] [])) material)"
      if "sd \<in> set ?defs" "set parts \<subseteq> set ?pool" for sd parts idx
      using assms(2) [of sd parts idx] that g by (simp add: sortByArea_def)
  qed
  with assms(1) st g show ?thesis
    by (auto simp: nestGroup_def Let_def split: prod.splits)
qed

lemma nestGroups_invariant:
  assumes "\<forall>l\<in>set (fst state). Q l"
    and "\<And>grp sheetDef parts idx. grp \<in> set grps \<Longrightarrow>
           sheetDef \<in> set (sheetDefsFor ops availableSheets (fst grp)) \<Longrightarrow>
           set parts \<subseteq> set (concat (map expandPart (snd grp))) \<Longrightarrow>
           Q (mkLayout sheetDef idx (fst (placeParts sheetDef d1 d2 rotation parts [] [])) material)"
  shows "\<forall>l\<in>set (fst (foldl (nestGroup ops availableSheets d1 d2 rotation material) state grps)). Q l"
  using assms
proof (induction grps arbitrary: state)
  case Nil
  then show ?case by simp
next
  case (Cons grp grps)
  have "\<forall>l\<in>set (fst (nestGroup ops availableSheets d1 d2 rotation material state grp)). Q l"
  proof (rule nestGroup_invariant [OF Cons.prems(1)])
    show "Q (mkLayout sd idx (fst (placeParts sd d1 d2 rotation parts [] [])) material)"
      if "sd \<in> set (sheetDefsFor ops availableSheets (fst grp))"
        "set parts \<subseteq> set (concat (map expandPart (snd grp)))" for sd parts idx
      using Cons.prems(2) [of grp sd parts idx] that by simp
  qed
  moreover have "Q (mkLayout sd idx (fst (placeParts sd d1 d2 rotation parts [] [])) material)"
    if "g \<in> set grps" "sd \<in> set (sheetDefsFor ops availableSheets (fst g))"
      "set parts \<subseteq> set (concat (map expandPart (snd g)))" for g sd parts idx
    using Cons.prems(2) [of g sd parts idx] that by simp
  ultimately show ?case
    using Cons.IH [of "nestGroup ops availableSheets d1 d2 rotation material state grp"] by simp
qed

lemma set_forInOrder: "set (forInOrder obj) = set obj"
  by (auto simp: forInOrder_def)

lemma performSheetNesting_layouts:
  "sr_layouts (performSheetNesting ops availableSheets parts d1 d2 rotation material)
     = fst (foldl (nestGroup ops availableSheets d1 d2 rotation material) ([], [], [])
              (forInOrder (groupParts ops parts)))"
  by (simp add: performSheetNesting_def Let_def split: prod.splits)

lemma performSheetNesting_invariant:
  assumes "\<And>grp sheetDef parts idx. grp \<in> set (groupParts ops ps) \<Longrightarrow>
           sheetDef \<in> set (sheetDefsFor ops availableSheets (fst grp)) \<Longrightarrow>
           set parts \<subseteq> set (concat (map expandPart (snd grp))) \<Longrightarrow>
           Q (mkLayout sheetDef idx (fst (placeParts sheetDef d1 d2 rotation parts [] [])) material)"
  shows "\<forall>l\<in>set (sr_layouts (performSheetNesting ops availableSheets ps d1 d2 rotation material)). Q l"
  unfolding performSheetNesting_layouts
proof (rule nestGroups_invariant)
  show "\<forall>l\<in>set (fst ([], [], [])). Q l" by simp
  show "Q (mkLayout sd idx (fst (placeParts sd d1 d2 rotation parts [] [])) material)"
    if "g \<in> set (forInOrder (groupParts ops ps))" "sd \<in> set (sheetDefsFor ops availableSheets (fst g))"
      "set parts \<subseteq> set (concat (map expandPart (snd g)))" for g sd parts idx
    using assms [of g sd parts idx] that by (simp add: set_forInOrder)
qed

lemma mkLayout_fields [simp]:
  "sl_placedParts (mkLayout sheetDef idx placed material) = placed"
  "sl_sheet (mkLayout sheetDef idx placed material) = sheetDef"
  by (simp_all add: mkLayout_def Let_def)

text \<open>
  Claim C4: on every layout produced by \<open>performSheetNesting\<close>, any two distinct placed parts
  fail the axis-aligned overlap test with the part-to-part clearance as the gap, the extents
  being the rotated ones where \<open>rotated = true\<close>.
\<close>

theorem placed_parts_do_not_overlap:
  "\<forall>layout\<in>set (sr_layouts (performSheetNesting ops availableSheets parts partToPartDist
                               partToSheetDist rotation material)).
     \<forall>i<length (sl_placedParts layout). \<forall>j<length (sl_placedParts layout).
       i \<noteq> j \<longrightarrow>
       \<not> footprintOverlap partToPartDist (sl_placedParts layout ! i) (sl_placedParts layout ! j)"
proof -
  have "\<forall>layout\<in>set (sr_layouts (performSheetNesting ops availableSheets parts partToPartDist
                               partToSheetDist rotation material)).
          pairwiseClear partToPartDist (sl_placedParts layout)"
    by (rule performSheetNesting_invariant) (simp add: placeParts_clear pairwiseClear_Nil)
  then show ?thesis
    by (simp add: pairwiseClear_def)
qed

theorem placed_parts_do_not_overlap_witness:
  "map (map (\<lambda>p. (pp_x p, pp_y p, pp_rotated p)) \<circ> sl_placedParts)
     (sr_layouts (performSheetNesting integralOps [sheet1000x500] [part400x300] 0 0 NINETY steel))
     = [[(0, 0, False), (300, 0, False)]]
   \<and> \<not> footprintOverlap 0
         (sl_placedParts (sr_layouts (performSheetNesting integralOps [sheet1000x500] [part400x300]
            0 0 NINETY steel) ! 0) ! 0)
         (sl_placedParts (sr_layouts (performSheetNesting integralOps [sheet1000x500] [part400x300]
            0 0 NINETY steel) ! 0) ! 1)"
proof -
  let ?R = "performSheetNesting integralOps [sheet1000x500] [part400x300] 0 0 NINETY steel"
  have ev: "map (map (\<lambda>p. (pp_x p, pp_y p, pp_rotated p)) \<circ> sl_placedParts) (sr_layouts ?R)
              = [[(0, 0, False), (300, 0, False)]]"
    by code_simp
  have len: "length (sr_layouts ?R) = 1"
    by code_simp
  then have mem: "sr_layouts ?R ! 0 \<in> set (sr_layouts ?R)"
    by simp
  have len2: "length (sl_placedParts (sr_layouts ?R ! 0)) = 2"
    by code_simp
  have all: "\<forall>layout\<in>set (sr_layouts ?R).
     \<forall>i<length (sl_placedParts layout). \<forall>j<length (sl_placedParts layout).
       i \<noteq> j \<longrightarrow> \<not> footprintOverlap 0 (sl_placedParts layout ! i) (sl_placedParts layout ! j)"
    by (rule placed_parts_do_not_overlap)
  from bspec [OF all mem] have "0 < length (sl_placedParts (sr_layouts ?R ! 0)) \<longrightarrow>
      1 < length (sl_placedParts (sr_layouts ?R ! 0)) \<longrightarrow> (0::nat) \<noteq> 1 \<longrightarrow>
      \<not> footprintOverlap 0 (sl_placedParts (sr_layouts ?R ! 0) ! 0)
          (sl_placedParts (sr_layouts ?R ! 0) ! 1)"
    by blast
  then have "\<not> footprintOverlap 0 (sl_placedParts (sr_layouts ?R ! 0) ! 0)
          (sl_placedParts (sr_layouts ?R ! 0) ! 1)"
    by (simp only: len2) simp
  with ev show ?thesis
    by (rule conjI)
qed

section \<open>Grades that contain a hyphen\<close>

lemma splitOn_first: "fst (splitOn sep s) = takeWhile (\<lambda>c. c \<noteq> sep) s"
proof (induction s)
  case Nil
  show ?case by simp
next
  case (Cons c cs)
  obtain seg segs where sp: "splitOn sep cs = (seg, segs)"
    by (cases "splitOn sep cs")
  with Cons show ?case
    by simp
qed

lemma takeWhile_key:
  "takeWhile (\<lambda>c. c \<noteq> sep) (g @ sep # t) = takeWhile (\<lambda>c. c \<noteq> sep) g"
  by (induction g) simp_all

definition keyedBy :: "('a \<Rightarrow> string) \<Rightarrow> (string \<times> 'a list) list \<Rightarrow> bool" where
  "keyedBy f acc = (\<forall>kv\<in>set acc. \<forall>v\<in>set (snd kv). f v = fst kv)"

lemma keyedBy_Cons: "keyedBy f ((k, vs) # acc) = ((\<forall>v\<in>set vs. f v = k) \<and> keyedBy f acc)"
  by (simp add: keyedBy_def)

lemma pushGroup_keys: "keyedBy f acc \<Longrightarrow> keyedBy f (pushGroup (f x) x acc)"
proof (induction acc)
  case Nil
  show ?case by (simp add: keyedBy_def)
next
  case (Cons kv acc)
  obtain k vs where kv: "kv = (k, vs)"
    by (cases kv)
  with Cons show ?case
    by (simp add: keyedBy_Cons)
qed

lemma foldl_pushGroup_keys:
  "keyedBy f acc \<Longrightarrow> keyedBy f (foldl (\<lambda>acc x. pushGroup (f x) x acc) acc xs)"
proof (induction xs arbitrary: acc)
  case Nil
  then show ?case by simp
next
  case (Cons x xs)
  from Cons.prems have "keyedBy f (pushGroup (f x) x acc)"
    by (rule pushGroup_keys)
  then have "keyedBy f (foldl (\<lambda>acc x. pushGroup (f x) x acc) (pushGroup (f x) x acc) xs)"
    by (rule Cons.IH)
  then show ?case
    by simp
qed

lemma groupParts_keys:
  assumes "grp \<in> set (groupParts ops parts)" and "p \<in> set (snd grp)"
  shows "partKey ops p = fst grp"
proof -
  have "keyedBy (partKey ops) []"
    by (simp add: keyedBy_def)
  then have "keyedBy (partKey ops) (groupParts ops parts)"
    unfolding groupParts_def by (rule foldl_pushGroup_keys)
  with assms show ?thesis
    unfolding keyedBy_def by blast
qed

lemma sheetDefsFor_grade:
  "sheetDef \<in> set (sheetDefsFor ops availableSheets key) \<Longrightarrow>
   s_grade sheetDef = takeWhile (\<lambda>c. c \<noteq> CHR ''-'') key"
  using splitOn_first [of "CHR ''-''" key]
  by (auto simp: sheetDefsFor_def splitKey_def Let_def split: prod.splits list.splits)

lemma placeParts_placed_from:
  "pp \<in> set (fst (placeParts sheetDef d1 d2 rotation parts placed remainingParts)) \<Longrightarrow>
   pp \<in> set placed \<or> (\<exists>part\<in>set parts. \<exists>position. pp = placeAt part position)"
proof (induction parts arbitrary: placed remainingParts)
  case Nil
  then show ?case by simp
next
  case (Cons part parts)
  show ?case
  proof (cases "findBestPosition part sheetDef placed d1 d2 rotation")
    case None
    with Cons.prems Cons.IH [of placed "remainingParts @ [part]"] show ?thesis by auto
  next
    case (Some position)
    with Cons.prems Cons.IH [of "placed @ [placeAt part position]" remainingParts] show ?thesis
      by auto
  qed
qed

lemma expandPart_grade:
  "q \<in> set (expandPart p) \<Longrightarrow> p_grade q = p_grade p \<and> p_thickness q = p_thickness p"
  by (auto simp: expandPart_def)

text \<open>
  Claim C9: the sheet of every layout has the grade of each part placed on it truncated at the
  first hyphen (the first segment of the group key split on \<open>-\<close>); so a part whose grade
  contains a hyphen is never placed on a sheet definition whose grade equals the part's grade.
\<close>

theorem hyphenated_grade_never_matches:
  "\<forall>layout\<in>set (sr_layouts (performSheetNesting ops availableSheets parts partToPartDist
                               partToSheetDist rotation material)).
     \<forall>pp\<in>set (sl_placedParts layout).
       s_grade (sl_sheet layout) = takeWhile (\<lambda>c. c \<noteq> CHR ''-'') (p_grade pp) \<and>
       (CHR ''-'' \<in> set (p_grade pp) \<longrightarrow> s_grade (sl_sheet layout) \<noteq> p_grade pp)"
proof -
  let ?Q = "\<lambda>layout. \<forall>pp\<in>set (sl_placedParts layout).
              s_grade (sl_sheet layout) = takeWhile (\<lambda>c. c \<noteq> CHR ''-'') (p_grade pp)"
  have "\<forall>layout\<in>set (sr_layouts (performSheetNesting ops availableSheets parts partToPartDist
                               partToSheetDist rotation material)). ?Q layout"
  proof (rule performSheetNesting_invariant)
    fix grp sheetDef ps idx
    assume g: "grp \<in> set (groupParts ops parts)"
      and sd: "sheetDef \<in> set (sheetDefsFor ops availableSheets (fst grp))"
      and ps: "set ps \<subseteq> set (concat (map expandPart (snd grp)))"
    have "s_grade sheetDef = takeWhile (\<lambda>c. c \<noteq> CHR ''-'') (p_grade pp)"
      if "pp \<in> set (fst (placeParts sheetDef partToPartDist partToSheetDist rotation ps [] []))" for pp
    proof -
      from placeParts_placed_from [OF that] obtain part position
        where part: "part \<in> set ps" and pp: "pp = placeAt part position"
        by auto
      from part ps obtain p where p: "p \<in> set (snd grp)" and q: "part \<in> set (expandPart p)"
        by auto
      from groupParts_keys [OF g p] have "fst grp = p_grade p @ CHR ''-'' # numToString ops (p_thickness p)"
        by (simp add: partKey_def)
      with sheetDefsFor_grade [OF sd] have "s_grade sheetDef = takeWhile (\<lambda>c. c \<noteq> CHR ''-'') (p_grade p)"
        by (simp add: takeWhile_key)
      with expandPart_grade [OF q] pp show ?thesis
        by simp
    qed
    then show "?Q (mkLayout sheetDef idx
                 (fst (placeParts sheetDef partToPartDist partToSheetDist rotation ps [] [])) material)"
      by simp
  qed
  then have Q: "s_grade (sl_sheet layout) = takeWhile (\<lambda>c. c \<noteq> CHR ''-'') (p_grade pp)"
    if "layout \<in> set (sr_layouts (performSheetNesting ops availableSheets parts partToPartDist
                               partToSheetDist rotation material))"
      "pp \<in> set (sl_placedParts layout)" for layout pp
    using that by blast
  have neq: "takeWhile (\<lambda>c. c \<noteq> CHR ''-'') g \<noteq> g" if "CHR ''-'' \<in> set g" for g
  proof
    assume "takeWhile (\<lambda>c. c \<noteq> CHR ''-'') g = g"
    then have "\<forall>c\<in>set g. c \<noteq> CHR ''-''"
      by (simp only: takeWhile_eq_all_conv)
    with that show False
      by blast
  qed
  show ?thesis
  proof (intro ballI conjI impI)
    fix layout pp
    assume l: "layout \<in> set (sr_layouts (performSheetNesting ops availableSheets parts partToPartDist
                               partToSheetDist rotation material))"
      and p: "pp \<in> set (sl_placedParts layout)"
    show "s_grade (sl_sheet layout) = takeWhile (\<lambda>c. c \<noteq> CHR ''-'') (p_grade pp)"
      by (rule Q [OF l p])
    assume "CHR ''-'' \<in> set (p_grade pp)"
    from neq [OF this] show "s_grade (sl_sheet layout) \<noteq> p_grade pp"
      by (simp only: Q [OF l p] not_False_eq_True)
  qed
qed

theorem hyphenated_grade_never_matches_witness:
  "map (\<lambda>l. (s_grade (sl_sheet l), map p_grade (sl_placedParts l)))
     (sr_layouts (performSheetNesting integralOps [sheetA36, sheetA] [partA36] 0 0 NONE steel))
     = [(''A'', [''A-36''])]
   \<and> s_grade (sl_sheet (sr_layouts (performSheetNesting integralOps [sheetA36, sheetA] [partA36]
         0 0 NONE steel) ! 0))
       \<noteq> p_grade (sl_placedParts (sr_layouts (performSheetNesting integralOps [sheetA36, sheetA]
           [partA36] 0 0 NONE steel) ! 0) ! 0)"
proof -
  let ?R = "performSheetNesting integralOps [sheetA36, sheetA] [partA36] 0 0 NONE steel"
  have ev: "map (\<lambda>l. (s_grade (sl_sheet l), map p_grade (sl_placedParts l))) (sr_layouts ?R)
              = [(''A'', [''A-36''])]"
    by code_simp
  have len: "length (sr_layouts ?R) = 1"
    by code_simp
  then have mem: "sr_layouts ?R ! 0 \<in> set (sr_layouts ?R)"
    by simp
  have len2: "length (sl_placedParts (sr_layouts ?R ! 0)) = 1"
    by code_simp
  then have mem2: "sl_placedParts (sr_layouts ?R ! 0) ! 0 \<in> set (sl_placedParts (sr_layouts ?R ! 0))"
    by simp
  have hyphen: "CHR ''-'' \<in> set (p_grade (sl_placedParts (sr_layouts ?R ! 0) ! 0))"
    by code_simp
  have all: "\<forall>layout\<in>set (sr_layouts ?R). \<forall>pp\<in>set (sl_placedParts layout).
       s_grade (sl_sheet layout) = takeWhile (\<lambda>c. c \<noteq> CHR ''-'') (p_grade pp) \<and>
       (CHR ''-'' \<in> set (p_grade pp) \<longrightarrow> s_grade (sl_sheet layout) \<noteq> p_grade pp)"
    by (rule hyphenated_grade_never_matches)
  from bspec [OF bspec [OF all mem] mem2] hyphen
  have "s_grade (sl_sheet (sr_layouts ?R ! 0)) \<noteq> p_grade (sl_placedParts (sr_layouts ?R ! 0) ! 0)"
    by blast
  with ev show ?thesis
    by (rule conjI)
qed

section \<open>Bars stay within the usable length\<close>

text \<open>The total of the effective lengths of a list of cuts.\<close>

definition totalEffective :: "CutPart list \<Rightarrow> real" where
  "totalEffective cuts = sum_list (map c_effectiveLength cuts)"

lemma totalEffective_simps [simp]:
  "totalEffective [] = 0"
  "totalEffective (cuts @ [c]) = totalEffective cuts + c_effectiveLength c"
  by (simp_all add: totalEffective_def)

lemma foldl_effective:
  "foldl (\<lambda>sum c. sum + c_effectiveLength c) a cuts = a + totalEffective cuts"
  by (induction cuts arbitrary: a) (simp_all add: totalEffective_def)

lemma accumulate_used_diff:
  "snd (accumulate u parts cuts used) - totalEffective (fst (accumulate u parts cuts used))
     = used - totalEffective cuts"
  by (induction parts arbitrary: cuts used) simp_all

lemma accumulate_used:
  "snd (accumulate u parts [] 0) = totalEffective (fst (accumulate u parts [] 0))"
  using accumulate_used_diff [of u parts "[]" 0] by simp

lemma accumulate_fits:
  "cuts = [] \<or> used \<le> u \<Longrightarrow>
   fst (accumulate u parts cuts used) = [] \<or> snd (accumulate u parts cuts used) \<le> u"
  by (induction parts arbitrary: cuts used) simp_all

lemma accumulate_keeps:
  "cuts \<noteq> [] \<Longrightarrow> fst (accumulate u parts cuts used) \<noteq> []"
  by (induction parts arbitrary: cuts used) simp_all

lemma accumulate_nonempty:
  assumes "parts \<noteq> []" and "\<forall>p\<in>set parts. c_effectiveLength p \<le> u"
  shows "fst (accumulate u parts [] 0) \<noteq> []"
proof -
  from assms obtain p ps where ps: "parts = p # ps" and "c_effectiveLength p \<le> u"
    by (cases parts) auto
  then have "accumulate u parts [] 0 = accumulate u ps [p] (c_effectiveLength p)"
    by simp
  then show ?thesis
    by (simp add: accumulate_keeps)
qed

lemma shuffleFrom_length:
  "length (fst (shuffleFrom j xs rng c)) = length xs"
  by (induction j arbitrary: xs c) (simp_all add: Let_def)

lemma shuffle_length: "length (fst (shuffle xs rng c)) = length xs"
  by (simp add: shuffle_def shuffleFrom_length)

text \<open>
  The invariant of the choice of a bar: the recorded waste is the usable length minus the
  total of the chosen cuts, and a non-empty choice fits the usable length.
\<close>

definition barOk :: "real \<Rightarrow> CutPart list \<times> real \<Rightarrow> bool" where
  "barOk u bw = (snd bw = u - totalEffective (fst bw) \<and> (fst bw = [] \<or> totalEffective (fst bw) \<le> u))"

lemma accumulate_barOk:
  "barOk u (fst (accumulate u parts [] 0), u - snd (accumulate u parts [] 0))"
  using accumulate_used [of u parts] accumulate_fits [of "[]" 0 u parts]
  by (simp add: barOk_def)

lemma trials_barOk:
  "barOk u (bestCuts, bestWaste) \<Longrightarrow>
   barOk u (fst (trials n u temp rng c bestCuts bestWaste),
            fst (snd (trials n u temp rng c bestCuts bestWaste)))"
proof (induction n arbitrary: temp c bestCuts bestWaste)
  case 0
  then show ?case by simp
next
  case (Suc n)
  obtain temp' c' where sh: "shuffle temp rng c = (temp', c')"
    by (cases "shuffle temp rng c")
  obtain cur used where ac: "accumulate u temp' [] 0 = (cur, used)"
    by (cases "accumulate u temp' [] 0")
  have cur: "barOk u (cur, u - used)"
    using accumulate_barOk [of u temp'] ac by simp
  show ?case
    using Suc.IH [OF cur, of temp' c'] Suc.IH [OF Suc.prems, of temp' c']
    by (simp add: sh ac Let_def)
qed

lemma trials_le:
  "fst (snd (trials n u temp rng c bestCuts bestWaste)) \<le> bestWaste"
proof (induction n arbitrary: temp c bestCuts bestWaste)
  case 0
  show ?case by simp
next
  case (Suc n)
  obtain temp' c' where sh: "shuffle temp rng c = (temp', c')"
    by (cases "shuffle temp rng c")
  obtain cur used where ac: "accumulate u temp' [] 0 = (cur, used)"
    by (cases "accumulate u temp' [] 0")
  show ?case
    using Suc.IH [of temp' c' cur "u - used"] Suc.IH [of temp' c' bestCuts bestWaste]
    by (auto simp: sh ac Let_def)
qed

lemma trials_nonempty:
  assumes "bestCuts \<noteq> []" and "temp \<noteq> []" and "\<forall>p\<in>set temp. c_effectiveLength p \<le> u"
  shows "fst (trials n u temp rng c bestCuts bestWaste) \<noteq> []"
  using assms
proof (induction n arbitrary: temp c bestCuts bestWaste)
  case 0
  then show ?case by simp
next
  case (Suc n)
  obtain temp' c' where sh: "shuffle temp rng c = (temp', c')"
    by (cases "shuffle temp rng c")
  obtain cur used where ac: "accumulate u temp' [] 0 = (cur, used)"
    by (cases "accumulate u temp' [] 0")
  have set': "set temp' = set temp"
    using shuffle_set [of temp rng c] sh by simp
  have "length temp' = length temp"
    using shuffle_length [of temp rng c] sh by simp
  with Suc.prems(2) have ne': "temp' \<noteq> []"
    by auto
  from set' Suc.prems(3) have fit': "\<forall>p\<in>set temp'. c_effectiveLength p \<le> u"
    by simp
  have cur: "cur \<noteq> []"
    using accumulate_nonempty [OF ne' fit'] ac by simp
  show ?case
    using Suc.IH [OF cur ne' fit', of c' "u - used"] Suc.IH [OF Suc.prems(1) ne' fit', of c' bestWaste]
    by (simp add: sh ac Let_def)
qed

lemma set_sortByEffectiveLength [simp]: "set (sortByEffectiveLength cs) = set cs"
  by (simp add: sortByEffectiveLength_def)

lemma sortByEffectiveLength_Nil [simp]: "(sortByEffectiveLength cs = []) = (cs = [])"
  by (metis set_sortByEffectiveLength set_empty)

lemma chooseCuts_barOk:
  "barOk u (fst (chooseCuts u goal pool rng c), fst (snd (chooseCuts u goal pool rng c)))"
proof -
  obtain g used where ac: "accumulate u (sortByEffectiveLength pool) [] 0 = (g, used)"
    by (cases "accumulate u (sortByEffectiveLength pool) [] 0")
  have g: "barOk u (g, u - used)"
    using accumulate_barOk [of u "sortByEffectiveLength pool"] ac by simp
  show ?thesis
    using g trials_barOk [OF g, of SHUFFLE_ITERATIONS pool rng c]
    by (simp add: chooseCuts_def ac)
qed

lemma chooseCuts_le_baseline:
  "fst (snd (chooseCuts u goal pool rng c))
     \<le> u - snd (accumulate u (sortByEffectiveLength pool) [] 0)"
proof -
  obtain g used where ac: "accumulate u (sortByEffectiveLength pool) [] 0 = (g, used)"
    by (cases "accumulate u (sortByEffectiveLength pool) [] 0")
  show ?thesis
    using trials_le [of SHUFFLE_ITERATIONS u pool rng c g "u - used"]
    by (simp add: chooseCuts_def ac)
qed

lemma chooseCuts_nonempty:
  assumes "pool \<noteq> []" and "\<forall>p\<in>set pool. c_effectiveLength p \<le> u"
  shows "fst (chooseCuts u goal pool rng c) \<noteq> []"
proof -
  obtain g used where ac: "accumulate u (sortByEffectiveLength pool) [] 0 = (g, used)"
    by (cases "accumulate u (sortByEffectiveLength pool) [] 0")
  have g: "g \<noteq> []"
    using accumulate_nonempty [of "sortByEffectiveLength pool" u] assms ac by simp
  show ?thesis
    using g trials_nonempty [OF g assms, of SHUFFLE_ITERATIONS rng c "u - used"]
    by (simp add: chooseCuts_def ac)
qed

lemma chooseCuts_speed:
  "chooseCuts u PRIORITIZE_SPEED pool rng c =
     (fst (accumulate u (sortByEffectiveLength pool) [] 0),
      u - snd (accumulate u (sortByEffectiveLength pool) [] 0), c)"
  by (simp add: chooseCuts_def split: prod.splits)

lemma removePlaced_subset: "set (removePlaced best pool) \<subseteq> set pool"
  by (auto simp: removePlaced_def)

definition barWithin :: "real \<Rightarrow> StockLayout \<Rightarrow> bool" where
  "barWithin u layout =
     (st_cuts layout \<noteq> [] \<and> st_usedLength layout = totalEffective (st_cuts layout) \<and>
      st_usedLength layout \<le> u)"

lemma newLayout_barWithin:
  assumes "pool \<noteq> []" and "\<forall>p\<in>set pool. c_effectiveLength p \<le> u"
  shows "barWithin u (newLayout idx stockLength (fst (chooseCuts u goal pool rng c)) rawMaterial)"
  using chooseCuts_nonempty [OF assms, of goal rng c] chooseCuts_barOk [of u goal pool rng c]
  by (simp add: barWithin_def newLayout_def foldl_effective barOk_def)

lemma fillBars_step:
  assumes "pool \<noteq> []" and "\<forall>p\<in>set pool. c_effectiveLength p \<le> u"
  shows "fillBars u stockLength goal rng rawMaterial partsInGroup pool layouts idx unplaced c =
         fillBars u stockLength goal rng rawMaterial partsInGroup
           (removePlaced (fst (chooseCuts u goal pool rng c)) pool)
           (layouts @ [newLayout idx stockLength (fst (chooseCuts u goal pool rng c)) rawMaterial])
           (idx + 1) unplaced (snd (snd (chooseCuts u goal pool rng c)))"
proof -
  obtain best w c' where ch: "chooseCuts u goal pool rng c = (best, w, c')"
    by (cases "chooseCuts u goal pool rng c") auto
  with chooseCuts_nonempty [OF assms, of goal rng c] have "best \<noteq> []"
    by simp
  with assms(1) ch show ?thesis
    by (subst fillBars.simps) simp
qed

lemma fillBars_returns:
  assumes "\<forall>p\<in>set pool. c_effectiveLength p \<le> u"
  shows "\<exists>new idx' c'.
           fillBars u stockLength goal rng rawMaterial partsInGroup pool layouts idx unplaced c
             = Inr (layouts @ new, idx', unplaced, c') \<and>
           (\<forall>l\<in>set new. barWithin u l \<and> set (st_cuts l) \<subseteq> set pool)"
  using assms
proof (induction "length pool" arbitrary: pool layouts idx c rule: less_induct)
  case less
  show ?case
  proof (cases "pool = []")
    case True
    then have "fillBars u stockLength goal rng rawMaterial partsInGroup pool layouts idx unplaced c
             = Inr (layouts @ [], idx, unplaced, c)"
      by (subst fillBars.simps) simp
    then show ?thesis
      by (metis empty_iff list.set(1))
  next
    case False
    let ?best = "fst (chooseCuts u goal pool rng c)"
    let ?c1 = "snd (snd (chooseCuts u goal pool rng c))"
    let ?pool' = "removePlaced ?best pool"
    let ?layout = "newLayout idx stockLength ?best rawMaterial"
    have ne: "?best \<noteq> []"
      by (rule chooseCuts_nonempty [OF False less.prems])
    have sub: "set ?best \<subseteq> set pool"
      by (rule chooseCuts_subset)
    have shorter: "length ?pool' < length pool"
      by (rule removePlaced_shorter [OF ne sub])
    have inv': "\<forall>p\<in>set ?pool'. c_effectiveLength p \<le> u"
      using less.prems removePlaced_subset [of ?best pool] by blast
    from less.hyps [OF shorter inv', of "layouts @ [?layout]" "idx + 1" ?c1]
    obtain new idx' c' where rec:
      "fillBars u stockLength goal rng rawMaterial partsInGroup ?pool' (layouts @ [?layout]) (idx + 1)
         unplaced ?c1 = Inr ((layouts @ [?layout]) @ new, idx', unplaced, c')"
      and new: "\<forall>l\<in>set new. barWithin u l \<and> set (st_cuts l) \<subseteq> set ?pool'"
      by blast
    have first: "barWithin u ?layout \<and> set (st_cuts ?layout) \<subseteq> set pool"
      using newLayout_barWithin [OF False less.prems, of idx stockLength goal rng c rawMaterial] sub
      by (simp add: newLayout_def)
    have "fillBars u stockLength goal rng rawMaterial partsInGroup pool layouts idx unplaced c
            = Inr (layouts @ (?layout # new), idx', unplaced, c')"
      using fillBars_step [OF False less.prems] rec by simp
    moreover have "\<forall>l\<in>set (?layout # new). barWithin u l \<and> set (st_cuts l) \<subseteq> set pool"
      using first new removePlaced_subset [of ?best pool] by auto
    ultimately show ?thesis
      by blast
  qed
qed

definition tooLong :: "real \<Rightarrow> LinearPart \<Rightarrow> bool" where
  "tooLong u p = (lp_effectiveLength p > u)"

lemma rejectOrExpand_eq:
  "rejectOrExpand ops u ps cuts unplaced =
     (cuts @ concat (map (cutInstances ops) (filter (\<lambda>p. \<not> tooLong u p) ps)),
      unplaced @ filter (tooLong u) ps)"
  by (induction ps arbitrary: cuts unplaced) (simp_all add: tooLong_def)

lemma cutInstances_fields:
  "piece \<in> set (cutInstances ops p) \<Longrightarrow>
   c_id piece = lp_id p \<and> c_effectiveLength piece = lp_effectiveLength p \<and>
   c_length piece = lp_length p \<and> c_rawMaterial piece = lp_rawMaterial p"
  by (auto simp: cutInstances_def)

definition cutFrom :: "NumberOps \<Rightarrow> real \<Rightarrow> LinearPart list \<Rightarrow> CutPart \<Rightarrow> bool" where
  "cutFrom ops u parts piece = (\<exists>p\<in>set parts. \<not> tooLong u p \<and> piece \<in> set (cutInstances ops p))"

lemma cutFrom_mono: "set ps \<subseteq> set qs \<Longrightarrow> cutFrom ops u ps piece \<Longrightarrow> cutFrom ops u qs piece"
  by (auto simp: cutFrom_def)

lemma cutFrom_fits: "cutFrom ops u parts piece \<Longrightarrow> c_effectiveLength piece \<le> u"
  by (auto simp: cutFrom_def tooLong_def dest: cutInstances_fields)

lemma nestLinearGroup_returns:
  "\<exists>new idx' c'.
     nestLinearGroup ops u stockLength goal rng (layouts, unplaced, idx, c) (rawMaterial, partsInGroup)
       = Inr (layouts @ new, unplaced @ filter (tooLong u) partsInGroup, idx', c') \<and>
     (\<forall>l\<in>set new. barWithin u l \<and> (\<forall>piece\<in>set (st_cuts l). cutFrom ops u partsInGroup piece))"
proof -
  let ?pool = "concat (map (cutInstances ops) (filter (\<lambda>p. \<not> tooLong u p) partsInGroup))"
  have re: "rejectOrExpand ops u partsInGroup [] [] = (?pool, filter (tooLong u) partsInGroup)"
    by (simp add: rejectOrExpand_eq)
  have pool: "cutFrom ops u partsInGroup piece" if "piece \<in> set ?pool" for piece
    using that by (auto simp: cutFrom_def)
  then have inv: "\<forall>p\<in>set ?pool. c_effectiveLength p \<le> u"
    using cutFrom_fits by blast
  from fillBars_returns [OF inv, of stockLength goal rng rawMaterial partsInGroup layouts idx
      "filter (tooLong u) partsInGroup" c]
  obtain new idx' c' where fb:
    "fillBars u stockLength goal rng rawMaterial partsInGroup ?pool layouts idx
       (filter (tooLong u) partsInGroup) c
       = Inr (layouts @ new, idx', filter (tooLong u) partsInGroup, c')"
    and new: "\<forall>l\<in>set new. barWithin u l \<and> set (st_cuts l) \<subseteq> set ?pool"
    by blast
  have "nestLinearGroup ops u stockLength goal rng (layouts, unplaced, idx, c) (rawMaterial, partsInGroup)
       = Inr (layouts @ new, unplaced @ filter (tooLong u) partsInGroup, idx', c')"
    by (simp add: nestLinearGroup_def re fb)
  moreover have "\<forall>l\<in>set new. barWithin u l \<and> (\<forall>piece\<in>set (st_cuts l). cutFrom ops u partsInGroup piece)"
    using new pool by blast
  ultimately show ?thesis
    by blast
qed

lemma nestLinearGroups_returns:
  "\<exists>new idx' c'.
     nestLinearGroups ops u stockLength goal rng grps (layouts, unplaced, idx, c)
       = Inr (layouts @ new, unplaced @ concat (map (\<lambda>g. filter (tooLong u) (snd g)) grps), idx', c') \<and>
     (\<forall>l\<in>set new. barWithin u l \<and>
        (\<forall>piece\<in>set (st_cuts l). cutFrom ops u (concat (map snd grps)) piece))"
proof (induction grps arbitrary: layouts unplaced idx c)
  case Nil
  show ?case by simp
next
  case (Cons grp grps)
  obtain rawMaterial partsInGroup where g: "grp = (rawMaterial, partsInGroup)"
    by (cases grp)
  from nestLinearGroup_returns [of ops u stockLength goal rng layouts unplaced idx c rawMaterial partsInGroup]
  obtain new1 idx1 c1 where one:
    "nestLinearGroup ops u stockLength goal rng (layouts, unplaced, idx, c) (rawMaterial, partsInGroup)
       = Inr (layouts @ new1, unplaced @ filter (tooLong u) partsInGroup, idx1, c1)"
    and new1: "\<forall>l\<in>set new1. barWithin u l \<and> (\<forall>piece\<in>set (st_cuts l). cutFrom ops u partsInGroup piece)"
    by blast
  from Cons.IH [of "layouts @ new1" "unplaced @ filter (tooLong u) partsInGroup" idx1 c1]
  obtain new2 idx2 c2 where rest:
    "nestLinearGroups ops u stockLength goal rng grps
        (layouts @ new1, unplaced @ filter (tooLong u) partsInGroup, idx1, c1)
       = Inr ((layouts @ new1) @ new2,
              (unplaced @ filter (tooLong u) partsInGroup) @
                concat (map (\<lambda>g. filter (tooLong u) (snd g)) grps), idx2, c2)"
    and new2: "\<forall>l\<in>set new2. barWithin u l \<and>
        (\<forall>piece\<in>set (st_cuts l). cutFrom ops u (concat (map snd grps)) piece)"
    by blast
  have "nestLinearGroups ops u stockLength goal rng (grp # grps) (layouts, unplaced, idx, c)
       = Inr (layouts @ (new1 @ new2),
              unplaced @ concat (map (\<lambda>g. filter (tooLong u) (snd g)) (grp # grps)), idx2, c2)"
    by (simp add: g one rest)
  moreover have "\<forall>l\<in>set (new1 @ new2). barWithin u l \<and>
        (\<forall>piece\<in>set (st_cuts l). cutFrom ops u (concat (map snd (grp # grps))) piece)"
  proof
    fix l
    assume "l \<in> set (new1 @ new2)"
    then consider "l \<in> set new1" | "l \<in> set new2"
      by auto
    then show "barWithin u l \<and> (\<forall>piece\<in>set (st_cuts l). cutFrom ops u (concat (map snd (grp # grps))) piece)"
    proof cases
      case 1
      with new1 have "barWithin u l" and "\<forall>piece\<in>set (st_cuts l). cutFrom ops u partsInGroup piece"
        by simp_all
      moreover have "set partsInGroup \<subseteq> set (concat (map snd (grp # grps)))"
        by (auto simp: g)
      ultimately show ?thesis
        using cutFrom_mono by blast
    next
      case 2
      with new2 have "barWithin u l" and "\<forall>piece\<in>set (st_cuts l). cutFrom ops u (concat (map snd grps)) piece"
        by simp_all
      moreover have "set (concat (map snd grps)) \<subseteq> set (concat (map snd (grp # grps)))"
        by auto
      ultimately show ?thesis
        using cutFrom_mono by blast
    qed
  qed
  ultimately show ?case
    by blast
qed

definition groupedValues :: "(string \<times> 'a list) list \<Rightarrow> 'a set" where
  "groupedValues acc = set (concat (map snd acc))"

lemma groupedValues_Cons: "groupedValues ((k, vs) # acc) = set vs \<union> groupedValues acc"
  by (simp add: groupedValues_def)

lemma pushGroup_values: "groupedValues (pushGroup k x acc) = insert x (groupedValues acc)"
proof (induction acc)
  case Nil
  show ?case by (simp add: groupedValues_def)
next
  case (Cons kv acc)
  obtain k' vs where kv: "kv = (k', vs)"
    by (cases kv)
  show ?case
    using Cons.IH by (auto simp: kv groupedValues_Cons)
qed

lemma foldl_pushGroup_values:
  "groupedValues (foldl (\<lambda>acc x. pushGroup (f x) x acc) acc xs) = groupedValues acc \<union> set xs"
proof (induction xs arbitrary: acc)
  case Nil
  show ?case by simp
next
  case (Cons x xs)
  have "groupedValues (foldl (\<lambda>acc x. pushGroup (f x) x acc) (pushGroup (f x) x acc) xs)
     = groupedValues (pushGroup (f x) x acc) \<union> set xs"
    by (rule Cons.IH)
  then show ?case
    by (simp add: pushGroup_values)
qed

text \<open>
  The groups of a run in which the reducer does not throw, and the test for a raw material
  that names an inherited member.
\<close>

definition groupsByRawMaterial :: "LinearPart list \<Rightarrow> (string \<times> LinearPart list) list" where
  "groupsByRawMaterial parts = foldl (\<lambda>acc part. pushGroup (lp_rawMaterial part) part acc) [] parts"

definition namesInherited :: "LinearPart list \<Rightarrow> bool" where
  "namesInherited parts = list_ex (\<lambda>p. lp_rawMaterial p \<in> set objectPrototypeNames) parts"

lemma groupLinearFrom_cases:
  "groupLinearFrom acc parts =
     (if namesInherited parts then Inl TypeError
      else Inr (foldl (\<lambda>acc part. pushGroup (lp_rawMaterial part) part acc) acc parts))"
  by (induction parts arbitrary: acc) (simp_all add: namesInherited_def)

lemma groupLinearParts_cases:
  "groupLinearParts parts =
     (if namesInherited parts then Inl TypeError else Inr (groupsByRawMaterial parts))"
  by (simp add: groupLinearParts_def groupsByRawMaterial_def groupLinearFrom_cases)

lemma groupsByRawMaterial_values:
  "set (concat (map snd (forInOrder (groupsByRawMaterial parts)))) = set parts"
proof -
  have "set (concat (map snd (forInOrder (groupsByRawMaterial parts))))
          = groupedValues (groupsByRawMaterial parts)"
    by (simp add: set_forInOrder groupedValues_def)
  also have "\<dots> = set parts"
    unfolding groupsByRawMaterial_def using foldl_pushGroup_values [of lp_rawMaterial "[]" parts]
    by (simp add: groupedValues_def)
  finally show ?thesis .
qed

definition rejectedParts :: "real \<Rightarrow> LinearPart list \<Rightarrow> LinearPart list" where
  "rejectedParts u parts =
     concat (map (\<lambda>g. filter (tooLong u) (snd g)) (forInOrder (groupsByRawMaterial parts)))"

lemma finalizeLayout_fields [simp]:
  "st_cuts (finalizeLayout l) = st_cuts l"
  "st_usedLength (finalizeLayout l) = st_usedLength l"
  "st_stockLength (finalizeLayout l) = st_stockLength l"
  by (simp_all add: finalizeLayout_def Let_def)

lemma performLinearNesting_throws:
  "namesInherited parts \<Longrightarrow>
   performLinearNesting ops rng stockLength parts goal leftEndAllowance rightEndAllowance
     = Inl TypeError"
  by (simp add: performLinearNesting_def groupLinearParts_cases)

lemma performLinearNesting_returns:
  assumes "\<not> namesInherited parts"
  shows
  "\<exists>res. performLinearNesting ops rng stockLength parts goal leftEndAllowance rightEndAllowance = Inr res \<and>
     lr_unplacedParts res
       = consolidateLinear (rejectedParts (stockLength - leftEndAllowance - rightEndAllowance) parts) \<and>
     (\<forall>l\<in>set (lr_layouts res).
        barWithin (stockLength - leftEndAllowance - rightEndAllowance) l \<and>
        (\<forall>piece\<in>set (st_cuts l).
           cutFrom ops (stockLength - leftEndAllowance - rightEndAllowance) parts piece))"
proof -
  let ?u = "stockLength - leftEndAllowance - rightEndAllowance"
  let ?grps = "forInOrder (groupsByRawMaterial parts)"
  from nestLinearGroups_returns [of ops ?u stockLength goal rng ?grps "[]" "[]" 1 0]
  obtain new idx' c' where run:
    "nestLinearGroups ops ?u stockLength goal rng ?grps ([], [], 1, 0)
       = Inr (new, rejectedParts ?u parts, idx', c')"
    and new: "\<forall>l\<in>set new. barWithin ?u l \<and>
        (\<forall>piece\<in>set (st_cuts l). cutFrom ops ?u (concat (map snd ?grps)) piece)"
    by (auto simp: rejectedParts_def)
  have sub: "set (concat (map snd ?grps)) \<subseteq> set parts"
    using groupsByRawMaterial_values [of parts] by simp
  have good: "\<forall>l\<in>set (map finalizeLayout new). barWithin ?u l \<and>
        (\<forall>piece\<in>set (st_cuts l). cutFrom ops ?u parts piece)"
  proof
    fix l
    assume "l \<in> set (map finalizeLayout new)"
    then obtain l0 where l0: "l0 \<in> set new" and l: "l = finalizeLayout l0"
      by auto
    from new l0 have "barWithin ?u l0" and "\<forall>piece\<in>set (st_cuts l0). cutFrom ops ?u (concat (map snd ?grps)) piece"
      by simp_all
    with sub l show "barWithin ?u l \<and> (\<forall>piece\<in>set (st_cuts l). cutFrom ops ?u parts piece)"
      using cutFrom_mono [OF sub] by (auto simp: barWithin_def)
  qed
  show ?thesis
    using good assms
    by (simp add: performLinearNesting_def groupLinearParts_cases Let_def run del: One_nat_def)
qed

text \<open>
  Claim C8: in every result that \<open>performLinearNesting\<close> returns, the \<open>usedLength\<close> of every
  layout is the sum of the effective lengths of its cuts and is at most
  \<open>usableStockLength = stockLength - leftEndAllowance - rightEndAllowance\<close>.
\<close>

theorem committed_bars_fit:
  assumes "performLinearNesting ops rng stockLength parts goal leftEndAllowance rightEndAllowance
             = Inr res"
  shows "\<forall>layout\<in>set (lr_layouts res).
           st_usedLength layout = totalEffective (st_cuts layout) \<and>
           st_usedLength layout \<le> stockLength - leftEndAllowance - rightEndAllowance"
proof -
  have "\<not> namesInherited parts"
  proof
    assume "namesInherited parts"
    from performLinearNesting_throws [OF this, of ops rng stockLength goal leftEndAllowance
        rightEndAllowance] assms
    show False
      by simp
  qed
  from performLinearNesting_returns [OF this, of ops rng stockLength goal leftEndAllowance
      rightEndAllowance] assms
  show ?thesis
    by (auto simp: barWithin_def)
qed

theorem committed_bars_fit_witness:
  "map_sum id (map st_usedLength \<circ> lr_layouts)
     (performLinearNesting integralOps (\<lambda>n. n) 6000 [bar2000, bar1000] MINIMIZE_WASTE 0 0)
     = Inr [5000]
   \<and> (case performLinearNesting integralOps (\<lambda>n. n) 6000 [bar2000, bar1000] MINIMIZE_WASTE 0 0 of
        Inl e \<Rightarrow> False
      | Inr res \<Rightarrow> st_usedLength (lr_layouts res ! 0) \<le> 6000 - 0 - 0)"
proof -
  let ?call = "performLinearNesting integralOps (\<lambda>n. n) 6000 [bar2000, bar1000] MINIMIZE_WASTE 0 0"
  have ev: "map_sum id (map st_usedLength \<circ> lr_layouts) ?call = Inr [5000]"
    by code_simp
  then obtain res where res: "?call = Inr res"
    by (cases ?call) simp_all
  from committed_bars_fit [OF res]
  have fit: "\<forall>layout\<in>set (lr_layouts res).
        st_usedLength layout = totalEffective (st_cuts layout) \<and>
        st_usedLength layout \<le> 6000 - 0 - 0" .
  from ev res have "map st_usedLength (lr_layouts res) = [5000]"
    by simp
  then have "lr_layouts res \<noteq> []"
    by auto
  then have "lr_layouts res ! 0 \<in> set (lr_layouts res)"
    by simp
  with fit have "st_usedLength (lr_layouts res ! 0) \<le> 6000 - 0 - 0"
    by blast
  with ev res show ?thesis
    by simp
qed

section \<open>Determinism\<close>

text \<open>
  In speed mode the choice of a bar never reads the draw sequence, so the whole run is
  independent of it.
\<close>

lemma fillBars_speed:
  "fillBars u stockLength PRIORITIZE_SPEED rng rawMaterial partsInGroup pool layouts idx unplaced c
   = fillBars u stockLength PRIORITIZE_SPEED rng' rawMaterial partsInGroup pool layouts idx unplaced c"
proof (induction "length pool" arbitrary: pool layouts idx rule: less_induct)
  case less
  let ?best = "fst (accumulate u (sortByEffectiveLength pool) [] 0)"
  let ?w = "u - snd (accumulate u (sortByEffectiveLength pool) [] 0)"
  have ch: "chooseCuts u PRIORITIZE_SPEED pool r c = (?best, ?w, c)" for r
    by (rule chooseCuts_speed)
  show ?case
  proof (cases "pool = [] \<or> ?best = []")
    case True
    then show ?thesis
      by (subst (1 2) fillBars.simps) (auto simp: ch)
  next
    case False
    have "set ?best \<subseteq> set pool"
      using accumulate_subset [of u "sortByEffectiveLength pool" "[]" 0] by simp
    with False have "length (removePlaced ?best pool) < length pool"
      by (simp add: removePlaced_shorter)
    from less.hyps [OF this] False show ?thesis
      by (subst (1 2) fillBars.simps) (simp add: ch)
  qed
qed

lemma nestLinearGroups_speed:
  "nestLinearGroups ops u stockLength PRIORITIZE_SPEED rng grps state
   = nestLinearGroups ops u stockLength PRIORITIZE_SPEED rng' grps state"
proof (induction grps arbitrary: state)
  case Nil
  show ?case by simp
next
  case (Cons grp grps)
  have "nestLinearGroup ops u stockLength PRIORITIZE_SPEED rng state grp
        = nestLinearGroup ops u stockLength PRIORITIZE_SPEED rng' state grp"
    by (simp add: nestLinearGroup_def fillBars_speed [of u stockLength rng _ _ _ _ _ _ _ rng']
        split: prod.splits)
  with Cons.IH show ?case
    by (simp split: sum.splits)
qed

text \<open>
  Claim C5: \<open>performSheetNesting\<close> is a function of its arguments alone (it has no access to
  the draw sequence), and \<open>performLinearNesting\<close> with \<open>PRIORITIZE_SPEED\<close> returns the same
  result whatever the pseudo-random draws are: identical arguments give identical results.
\<close>

theorem speed_mode_is_deterministic:
  "(sheets = sheets' \<and> parts = parts' \<and> d1 = d1' \<and> d2 = d2' \<and> rotation = rotation' \<and>
    material = material' \<longrightarrow>
      performSheetNesting ops sheets parts d1 d2 rotation material
        = performSheetNesting ops sheets' parts' d1' d2' rotation' material') \<and>
   performLinearNesting ops rng stockLength linearParts PRIORITIZE_SPEED leftEndAllowance rightEndAllowance
     = performLinearNesting ops rng' stockLength linearParts PRIORITIZE_SPEED leftEndAllowance
         rightEndAllowance"
  by (simp add: performLinearNesting_def nestLinearGroups_speed [of ops _ stockLength rng _ _ rng']
      split: sum.splits)


theorem speed_mode_is_deterministic_witness:
  "performSheetNesting integralOps [sheet1000x500] [part400x300] 0 0 NINETY steel
     = performSheetNesting integralOps [sheet1000x500] [part400x300] 0 0 NINETY steel
   \<and> performLinearNesting integralOps (\<lambda>n. 0) 6000 [bar2000, bar1000] PRIORITIZE_SPEED 0 0
     = performLinearNesting integralOps (\<lambda>n. n) 6000 [bar2000, bar1000] PRIORITIZE_SPEED 0 0"
  using speed_mode_is_deterministic [where sheets = "[sheet1000x500]" and sheets' = "[sheet1000x500]"
      and parts = "[part400x300]" and parts' = "[part400x300]" and ?d1.0 = 0 and d1' = 0
      and ?d2.0 = 0 and d2' = 0 and rotation = NINETY and rotation' = NINETY
      and material = steel and material' = steel and ops = integralOps
      and rng = "\<lambda>n. 0" and rng' = "\<lambda>n. n" and stockLength = 6000
      and linearParts = "[bar2000, bar1000]" and leftEndAllowance = 0 and rightEndAllowance = 0]
  by simp

section \<open>Termination of the bar-filling loop\<close>

text \<open>
  Claim C10: every call of \<open>performLinearNesting\<close> halts.  The model is a total function whose
  loop is defined by well-founded recursion on the size of the pool; the call throws a
  \<open>TypeError\<close> while grouping, before any loop, exactly when a raw material names an
  inherited member, and returns a result otherwise.  The bar-filling loop itself returns on
  every pool of instances within the usable length, with no error.  After immediate rejection
  every instance has \<open>effectiveLength \<le> usableStockLength\<close>; on a non-empty pool of such
  instances the greedy pass and the chosen bar are non-empty, so the loop commits a layout (the
  branch for an empty best bar is not taken), the pool becomes strictly smaller and keeps the
  bound.
\<close>

theorem bar_loop_terminates:
  "(namesInherited parts \<longrightarrow>
      performLinearNesting ops rng stockLength parts goal leftEndAllowance rightEndAllowance
        = Inl TypeError) \<and>
   (\<not> namesInherited parts \<longrightarrow>
      (\<exists>res. performLinearNesting ops rng stockLength parts goal leftEndAllowance rightEndAllowance
               = Inr res)) \<and>
   (\<forall>piece\<in>set (fst (rejectOrExpand ops u partsInGroup [] [])). c_effectiveLength piece \<le> u) \<and>
   ((\<forall>piece\<in>set pool. c_effectiveLength piece \<le> u) \<longrightarrow>
      (\<exists>new idx' c'.
         fillBars u stockLength goal rng rawMaterial partsInGroup pool layouts idx unplaced c
           = Inr (layouts @ new, idx', unplaced, c'))) \<and>
   (pool \<noteq> [] \<and> (\<forall>piece\<in>set pool. c_effectiveLength piece \<le> u) \<longrightarrow>
      fst (accumulate u (sortByEffectiveLength pool) [] 0) \<noteq> [] \<and>
      fst (chooseCuts u goal pool rng c) \<noteq> [] \<and>
      length (removePlaced (fst (chooseCuts u goal pool rng c)) pool) < length pool \<and>
      (\<forall>piece\<in>set (removePlaced (fst (chooseCuts u goal pool rng c)) pool).
         c_effectiveLength piece \<le> u) \<and>
      fillBars u stockLength goal rng rawMaterial partsInGroup pool layouts idx unplaced c =
        fillBars u stockLength goal rng rawMaterial partsInGroup
          (removePlaced (fst (chooseCuts u goal pool rng c)) pool)
          (layouts @ [newLayout idx stockLength (fst (chooseCuts u goal pool rng c)) rawMaterial])
          (idx + 1) unplaced (snd (snd (chooseCuts u goal pool rng c))))"
proof (intro conjI impI)
  show "performLinearNesting ops rng stockLength parts goal leftEndAllowance rightEndAllowance
          = Inl TypeError" if "namesInherited parts"
    using that by (rule performLinearNesting_throws)
  show "\<exists>res. performLinearNesting ops rng stockLength parts goal leftEndAllowance rightEndAllowance
             = Inr res" if "\<not> namesInherited parts"
    using performLinearNesting_returns [OF that, of ops rng stockLength goal leftEndAllowance
        rightEndAllowance] by blast
  show "\<forall>piece\<in>set (fst (rejectOrExpand ops u partsInGroup [] [])). c_effectiveLength piece \<le> u"
    by (auto simp: rejectOrExpand_eq tooLong_def dest: cutInstances_fields)
  show "\<exists>new idx' c'.
         fillBars u stockLength goal rng rawMaterial partsInGroup pool layouts idx unplaced c
           = Inr (layouts @ new, idx', unplaced, c')"
    if "\<forall>piece\<in>set pool. c_effectiveLength piece \<le> u"
    using fillBars_returns [OF that, of stockLength goal rng rawMaterial partsInGroup layouts idx
        unplaced c] by blast
next
  assume a: "pool \<noteq> [] \<and> (\<forall>piece\<in>set pool. c_effectiveLength piece \<le> u)"
  then have ne: "pool \<noteq> []" and inv: "\<forall>piece\<in>set pool. c_effectiveLength piece \<le> u"
    by simp_all
  show "fst (accumulate u (sortByEffectiveLength pool) [] 0) \<noteq> []"
    using accumulate_nonempty [of "sortByEffectiveLength pool" u] ne inv by simp
  show best: "fst (chooseCuts u goal pool rng c) \<noteq> []"
    by (rule chooseCuts_nonempty [OF ne inv])
  show "length (removePlaced (fst (chooseCuts u goal pool rng c)) pool) < length pool"
    by (rule removePlaced_shorter [OF best chooseCuts_subset])
  show "\<forall>piece\<in>set (removePlaced (fst (chooseCuts u goal pool rng c)) pool).
         c_effectiveLength piece \<le> u"
    using inv removePlaced_subset [of "fst (chooseCuts u goal pool rng c)" pool] by blast
  show "fillBars u stockLength goal rng rawMaterial partsInGroup pool layouts idx unplaced c =
        fillBars u stockLength goal rng rawMaterial partsInGroup
          (removePlaced (fst (chooseCuts u goal pool rng c)) pool)
          (layouts @ [newLayout idx stockLength (fst (chooseCuts u goal pool rng c)) rawMaterial])
          (idx + 1) unplaced (snd (snd (chooseCuts u goal pool rng c)))"
    by (rule fillBars_step [OF ne inv])
qed

theorem bar_loop_terminates_witness:
  "\<not> namesInherited [bar2000, bar1000]
   \<and> namesInherited [barConstructor]
   \<and> performLinearNesting integralOps (\<lambda>n. n) 1000 [barConstructor] MINIMIZE_WASTE 0 0
       = Inl TypeError
   \<and> fst (rejectOrExpand integralOps 6000 [bar2000, bar1000] [] []) \<noteq> []
   \<and> list_all (\<lambda>piece. c_effectiveLength piece \<le> 6000)
       (fst (rejectOrExpand integralOps 6000 [bar2000, bar1000] [] []))
   \<and> fst (chooseCuts 6000 MINIMIZE_WASTE
            (fst (rejectOrExpand integralOps 6000 [bar2000, bar1000] [] [])) (\<lambda>n. n) 0) \<noteq> []
   \<and> length (removePlaced
         (fst (chooseCuts 6000 MINIMIZE_WASTE
            (fst (rejectOrExpand integralOps 6000 [bar2000, bar1000] [] [])) (\<lambda>n. n) 0))
         (fst (rejectOrExpand integralOps 6000 [bar2000, bar1000] [] [])))
       < length (fst (rejectOrExpand integralOps 6000 [bar2000, bar1000] [] []))
   \<and> (\<exists>res. performLinearNesting integralOps (\<lambda>n. n) 6000 [bar2000, bar1000] MINIMIZE_WASTE 0 0
               = Inr res)"
proof -
  let ?pool = "fst (rejectOrExpand integralOps 6000 [bar2000, bar1000] [] [])"
  have plain: "\<not> namesInherited [bar2000, bar1000]"
    by code_simp
  have inherited: "namesInherited [barConstructor]"
    by code_simp
  have ne: "?pool \<noteq> []"
    by code_simp
  have fits: "list_all (\<lambda>piece. c_effectiveLength piece \<le> 6000) ?pool"
    by code_simp
  then have inv: "\<forall>piece\<in>set ?pool. c_effectiveLength piece \<le> 6000"
    by (simp add: list_all_iff)
  from bar_loop_terminates [where ops = integralOps and rng = "\<lambda>n. n" and stockLength = 1000
      and parts = "[barConstructor]" and goal = MINIMIZE_WASTE and leftEndAllowance = 0
      and rightEndAllowance = 0] inherited
  have throws: "performLinearNesting integralOps (\<lambda>n. n) 1000 [barConstructor] MINIMIZE_WASTE 0 0
       = Inl TypeError"
    by blast
  from bar_loop_terminates [where ops = integralOps and rng = "\<lambda>n. n" and stockLength = 6000
      and parts = "[bar2000, bar1000]" and goal = MINIMIZE_WASTE and leftEndAllowance = 0
      and rightEndAllowance = 0 and u = 6000 and partsInGroup = "[bar2000, bar1000]"
      and pool = ?pool and c = 0 and rawMaterial = "''A''" and layouts = "[]" and idx = 1
      and unplaced = "[]"] plain ne inv
  have "fst (chooseCuts 6000 MINIMIZE_WASTE ?pool (\<lambda>n. n) 0) \<noteq> []"
    and "length (removePlaced (fst (chooseCuts 6000 MINIMIZE_WASTE ?pool (\<lambda>n. n) 0)) ?pool)
           < length ?pool"
    and "\<exists>res. performLinearNesting integralOps (\<lambda>n. n) 6000 [bar2000, bar1000] MINIMIZE_WASTE 0 0
               = Inr res"
    by blast+
  with plain inherited throws ne fits show ?thesis
    by blast
qed

section \<open>Immediate rejection\<close>

text \<open>
  The groups are visited in some order, but as a multiset the rejected parts of all groups are
  the rejected parts of the input.
\<close>

lemma mset_forInOrder: "mset (forInOrder obj) = mset obj"
proof -
  have "mset (forInOrder obj)
          = filter_mset (\<lambda>kv. isArrayIndex (fst kv)) (mset obj)
            + filter_mset (\<lambda>kv. \<not> isArrayIndex (fst kv)) (mset obj)"
    by (simp add: forInOrder_def)
  also have "\<dots> = mset obj"
    by (rule multiset_partition [symmetric])
  finally show ?thesis .
qed

lemma mset_concat_cong:
  assumes "mset xss = mset yss"
  shows "mset (concat (map f xss)) = mset (concat (map f yss))"
proof -
  have "mset (concat (map f zs)) = sum_mset (image_mset (\<lambda>z. mset (f z)) (mset zs))" for zs
    by (induction zs) simp_all
  with assms show ?thesis
    by simp
qed

lemma mset_pushGroup:
  "mset (concat (map snd (pushGroup k x acc))) = add_mset x (mset (concat (map snd acc)))"
proof (induction acc)
  case Nil
  show ?case by simp
next
  case (Cons kv acc)
  obtain k' vs where kv: "kv = (k', vs)"
    by (cases kv)
  show ?case
    using Cons.IH by (simp add: kv)
qed

lemma mset_foldl_pushGroup:
  "mset (concat (map snd (foldl (\<lambda>acc x. pushGroup (f x) x acc) acc xs)))
     = mset (concat (map snd acc)) + mset xs"
proof (induction xs arbitrary: acc)
  case Nil
  show ?case by simp
next
  case (Cons x xs)
  have "mset (concat (map snd (foldl (\<lambda>acc x. pushGroup (f x) x acc) (pushGroup (f x) x acc) xs)))
     = mset (concat (map snd (pushGroup (f x) x acc))) + mset xs"
    by (rule Cons.IH)
  then show ?case
    by (simp add: mset_pushGroup)
qed

lemma mset_rejectedParts: "mset (rejectedParts u parts) = mset (filter (tooLong u) parts)"
proof -
  have "mset (rejectedParts u parts)
          = mset (concat (map (\<lambda>g. filter (tooLong u) (snd g)) (groupsByRawMaterial parts)))"
    unfolding rejectedParts_def by (rule mset_concat_cong [OF mset_forInOrder])
  also have "concat (map (\<lambda>g. filter (tooLong u) (snd g)) (groupsByRawMaterial parts))
          = filter (tooLong u) (concat (map snd (groupsByRawMaterial parts)))"
    by (simp add: filter_concat comp_def)
  also have "mset \<dots> = filter_mset (tooLong u) (mset (concat (map snd (groupsByRawMaterial parts))))"
    by simp
  also have "mset (concat (map snd (groupsByRawMaterial parts))) = mset parts"
    unfolding groupsByRawMaterial_def using mset_foldl_pushGroup [of lp_rawMaterial "[]" parts]
    by simp
  finally show ?thesis
    by simp
qed

text \<open>
  The consolidation keeps one entry per id, whose quantity is the sum of the quantities of the
  entries with that id.
\<close>

definition quantityOf :: "int \<Rightarrow> LinearPart list \<Rightarrow> nat" where
  "quantityOf i ps = sum_list (map lp_quantity (filter (\<lambda>p. lp_id p = i) ps))"

lemma quantityOf_mset: "mset ps = mset qs \<Longrightarrow> quantityOf i ps = quantityOf i qs"
proof -
  have "quantityOf i zs = sum_mset (image_mset lp_quantity (filter_mset (\<lambda>p. lp_id p = i) (mset zs)))" for zs
    unfolding quantityOf_def by (metis mset_filter mset_map sum_mset_sum_list)
  then show "mset ps = mset qs \<Longrightarrow> quantityOf i ps = quantityOf i qs"
    by simp
qed

lemma mergeUnplaced_ids:
  "lp_id ` set (mergeUnplaced p acc) = insert (lp_id p) (lp_id ` set acc)"
  by (induction acc) auto

lemma mergeUnplaced_distinct:
  "distinct (map lp_id acc) \<Longrightarrow> distinct (map lp_id (mergeUnplaced p acc))"
proof (induction acc)
  case Nil
  show ?case by simp
next
  case (Cons e acc)
  then show ?case
    using mergeUnplaced_ids [of p acc] by auto
qed

lemma quantityOf_Cons:
  "quantityOf i (e # acc) = (if lp_id e = i then lp_quantity e else 0) + quantityOf i acc"
  by (simp add: quantityOf_def)

lemma mergeUnplaced_quantity:
  "quantityOf i (mergeUnplaced p acc) = quantityOf i acc + (if lp_id p = i then lp_quantity p else 0)"
proof (induction acc)
  case Nil
  show ?case by (simp add: quantityOf_def)
next
  case (Cons e acc)
  show ?case
  proof (cases "lp_id e = lp_id p")
    case True
    then show ?thesis
      by (simp add: quantityOf_Cons)
  next
    case False
    with Cons show ?thesis
      by (simp add: quantityOf_Cons)
  qed
qed

lemma quantityOf_append: "quantityOf i (ps @ [p]) = quantityOf i ps + (if lp_id p = i then lp_quantity p else 0)"
  by (simp add: quantityOf_def)

lemma consolidate_invariant:
  "distinct (map lp_id acc) \<Longrightarrow>
   distinct (map lp_id (foldl (\<lambda>acc part. mergeUnplaced part acc) acc ps)) \<and>
   lp_id ` set (foldl (\<lambda>acc part. mergeUnplaced part acc) acc ps) = lp_id ` set acc \<union> lp_id ` set ps \<and>
   (\<forall>i. quantityOf i (foldl (\<lambda>acc part. mergeUnplaced part acc) acc ps)
          = quantityOf i acc + quantityOf i ps)"
proof (induction ps arbitrary: acc)
  case Nil
  show ?case using Nil by (simp add: quantityOf_def)
next
  case (Cons p ps)
  have d: "distinct (map lp_id (mergeUnplaced p acc))"
    by (rule mergeUnplaced_distinct [OF Cons.prems])
  from Cons.IH [OF d]
  have 1: "distinct (map lp_id (foldl (\<lambda>acc part. mergeUnplaced part acc) (mergeUnplaced p acc) ps))"
    and 2: "lp_id ` set (foldl (\<lambda>acc part. mergeUnplaced part acc) (mergeUnplaced p acc) ps)
              = lp_id ` set (mergeUnplaced p acc) \<union> lp_id ` set ps"
    and 3: "\<And>i. quantityOf i (foldl (\<lambda>acc part. mergeUnplaced part acc) (mergeUnplaced p acc) ps)
              = quantityOf i (mergeUnplaced p acc) + quantityOf i ps"
    by simp_all
  have "quantityOf i (foldl (\<lambda>acc part. mergeUnplaced part acc) (mergeUnplaced p acc) ps)
              = quantityOf i acc + quantityOf i (p # ps)" for i
    unfolding 3 by (simp add: mergeUnplaced_quantity quantityOf_Cons)
  with 1 2 show ?case
    by (simp add: mergeUnplaced_ids)
qed

lemma distinct_quantityOf:
  "distinct (map lp_id acc) \<Longrightarrow> e \<in> set acc \<Longrightarrow> quantityOf (lp_id e) acc = lp_quantity e"
proof (induction acc)
  case Nil
  then show ?case by simp
next
  case (Cons a acc)
  from Cons.prems(1) have fresh: "lp_id a \<notin> lp_id ` set acc"
    by simp
  show ?case
  proof (cases "e = a")
    case True
    from fresh have "\<forall>x\<in>set acc. lp_id x \<noteq> lp_id a"
      by (metis image_eqI)
    then have "filter (\<lambda>p. lp_id p = lp_id a) acc = []"
      by (simp add: filter_empty_conv)
    then have "quantityOf (lp_id a) acc = 0"
      by (simp add: quantityOf_def)
    with True show ?thesis
      by (simp add: quantityOf_Cons)
  next
    case False
    with Cons.prems have e: "e \<in> set acc"
      by simp
    with fresh have ne: "lp_id a \<noteq> lp_id e"
      by (metis image_eqI)
    from Cons.IH [OF _ e] Cons.prems(1) have "quantityOf (lp_id e) acc = lp_quantity e"
      by simp
    with ne show ?thesis
      by (simp add: quantityOf_Cons)
  qed
qed

lemma consolidateLinear_entry:
  assumes "p \<in> set ps"
  shows "\<exists>e\<in>set (consolidateLinear ps). lp_id e = lp_id p \<and> lp_quantity e = quantityOf (lp_id p) ps"
proof -
  let ?acc = "consolidateLinear ps"
  from consolidate_invariant [of "[]" ps]
  have d: "distinct (map lp_id ?acc)"
    and ids: "lp_id ` set ?acc = lp_id ` set ps"
    and q: "\<And>i. quantityOf i ?acc = quantityOf i ps"
    by (simp_all add: consolidateLinear_def quantityOf_def)
  from assms ids obtain e where e: "e \<in> set ?acc" "lp_id e = lp_id p"
    by (metis imageE imageI)
  with distinct_quantityOf [OF d e(1)] q [of "lp_id p"] show ?thesis
    by auto
qed


text \<open>Scenario D: one part of length 1200 on stock of length 1000.\<close>

lemma scenarioD:
  "performLinearNesting integralOps rng 1000 [bar1200] goal 0 0
     = Inr \<lparr>lr_layouts = [], lr_unplacedParts = [bar1200], lr_totalStockUsed = 0,
            lr_totalWaste = 0, lr_totalWastePercentage = 0\<rparr>"
  by code_simp

text \<open>
  When no raw material names an inherited member the call returns a result, every part whose
  \<open>effectiveLength\<close> exceeds \<open>usableStockLength\<close> has an entry with its id in \<open>unplacedParts\<close>
  whose quantity is the total requested quantity of the rejected rows with that id (the part's
  own quantity when ids are distinct), and every cut of every layout is an instance of a part
  that was not rejected, so its effective length is within the usable length.
\<close>

lemma too_long_parts_reported:
  assumes "\<not> namesInherited parts"
  shows
  "\<exists>res. performLinearNesting ops rng stockLength parts goal leftEndAllowance rightEndAllowance = Inr res \<and>
     (\<forall>p\<in>set parts. lp_effectiveLength p > stockLength - leftEndAllowance - rightEndAllowance \<longrightarrow>
        (\<exists>e\<in>set (lr_unplacedParts res).
           lp_id e = lp_id p \<and>
           lp_quantity e = quantityOf (lp_id p)
             (filter (tooLong (stockLength - leftEndAllowance - rightEndAllowance)) parts) \<and>
           (distinct (map lp_id parts) \<longrightarrow> lp_quantity e = lp_quantity p))) \<and>
     (\<forall>layout\<in>set (lr_layouts res). \<forall>piece\<in>set (st_cuts layout).
        c_effectiveLength piece \<le> stockLength - leftEndAllowance - rightEndAllowance \<and>
        cutFrom ops (stockLength - leftEndAllowance - rightEndAllowance) parts piece)"
proof -
  let ?u = "stockLength - leftEndAllowance - rightEndAllowance"
  let ?rej = "filter (tooLong ?u) parts"
  from performLinearNesting_returns [OF assms, of ops rng stockLength goal leftEndAllowance
      rightEndAllowance]
  obtain res where res: "performLinearNesting ops rng stockLength parts goal leftEndAllowance
        rightEndAllowance = Inr res"
    and unp: "lr_unplacedParts res = consolidateLinear (rejectedParts ?u parts)"
    and lay: "\<forall>l\<in>set (lr_layouts res). barWithin ?u l \<and>
        (\<forall>piece\<in>set (st_cuts l). cutFrom ops ?u parts piece)"
    by blast
  have perm: "mset (rejectedParts ?u parts) = mset ?rej"
    by (rule mset_rejectedParts)
  have entry: "\<exists>e\<in>set (lr_unplacedParts res).
           lp_id e = lp_id p \<and> lp_quantity e = quantityOf (lp_id p) ?rej \<and>
           (distinct (map lp_id parts) \<longrightarrow> lp_quantity e = lp_quantity p)"
    if p: "p \<in> set parts" and long: "lp_effectiveLength p > ?u" for p
  proof -
    from p long have in_rej: "p \<in> set ?rej"
      by (simp add: tooLong_def)
    then have "p \<in> set (rejectedParts ?u parts)"
      using perm by (metis set_mset_mset)
    from consolidateLinear_entry [OF this] obtain e
      where e: "e \<in> set (lr_unplacedParts res)" "lp_id e = lp_id p"
        "lp_quantity e = quantityOf (lp_id p) (rejectedParts ?u parts)"
      unfolding unp by blast
    have q: "quantityOf (lp_id p) (rejectedParts ?u parts) = quantityOf (lp_id p) ?rej"
      by (rule quantityOf_mset [OF perm])
    have "quantityOf (lp_id p) ?rej = lp_quantity p" if "distinct (map lp_id parts)"
    proof -
      from that have "distinct (map lp_id ?rej)"
        by (rule distinct_map_filter)
      from distinct_quantityOf [OF this in_rej] show ?thesis .
    qed
    with e q show ?thesis
      by auto
  qed
  have cuts: "c_effectiveLength piece \<le> ?u \<and> cutFrom ops ?u parts piece"
    if "layout \<in> set (lr_layouts res)" "piece \<in> set (st_cuts layout)" for layout piece
    using lay that cutFrom_fits by blast
  from res entry cuts
  show "\<exists>res. performLinearNesting ops rng stockLength parts goal leftEndAllowance rightEndAllowance = Inr res \<and>
     (\<forall>p\<in>set parts. lp_effectiveLength p > ?u \<longrightarrow>
        (\<exists>e\<in>set (lr_unplacedParts res).
           lp_id e = lp_id p \<and> lp_quantity e = quantityOf (lp_id p) ?rej \<and>
           (distinct (map lp_id parts) \<longrightarrow> lp_quantity e = lp_quantity p))) \<and>
     (\<forall>layout\<in>set (lr_layouts res). \<forall>piece\<in>set (st_cuts layout).
        c_effectiveLength piece \<le> ?u \<and> cutFrom ops ?u parts piece)"
    by blast
qed

text \<open>
  Claim C6: every part whose \<open>effectiveLength\<close> exceeds \<open>usableStockLength\<close> is reported in
  \<open>unplacedParts\<close> with its full requested quantity, contributes to no layout, and no exception
  is raised.  The code breaks the last part: for stock length 1000, zero allowances and a
  single part of length 1200 with quantity 1 whose raw material is \<open>constructor\<close>, the
  grouping finds the inherited member \<open>Object.prototype.constructor\<close> under that key, creates no
  array and throws a \<open>TypeError\<close> at \<open>acc[key].push(part)\<close>: no result is returned and the part
  is reported nowhere.  With the raw material \<open>A\<close> the same part is reported as the claim says
  (lemma \<open>scenarioD\<close>).
\<close>

theorem inherited_raw_material_throws:
  "lp_effectiveLength barConstructor > 1000 - 0 - 0
   \<and> lp_quantity barConstructor = 1
   \<and> lp_rawMaterial barConstructor = ''constructor''
   \<and> performLinearNesting integralOps rng 1000 [barConstructor] goal 0 0 = Inl TypeError"
  by code_simp

section \<open>Waste minimisation against the baseline\<close>

text \<open>
  The candidates of the trial loop in the order in which it produces them: the cuts and the
  waste of each of the \<open>n\<close> trials, each trial shuffling the order the previous one left.
\<close>

fun trialResults ::
  "nat \<Rightarrow> real \<Rightarrow> CutPart list \<Rightarrow> (nat \<Rightarrow> nat) \<Rightarrow> nat \<Rightarrow> (CutPart list \<times> real) list" where
  "trialResults 0 u temp rng c = []"
| "trialResults (Suc n) u temp rng c =
     (case shuffle temp rng c of
        (temp', c') \<Rightarrow>
          (case accumulate u temp' [] 0 of
             (currentCuts, currentUsed) \<Rightarrow>
               (currentCuts, u - currentUsed) # trialResults n u temp' rng c'))"

text \<open>
  \<open>best\<close> is the earliest candidate of minimal waste: every candidate before it has strictly
  more waste and no candidate after it has less.
\<close>

definition earliestMinimum :: "CutPart list \<times> real \<Rightarrow> (CutPart list \<times> real) list \<Rightarrow> bool" where
  "earliestMinimum best candidates =
     (\<exists>pre post. candidates = pre @ best # post \<and>
        (\<forall>x\<in>set pre. snd best < snd x) \<and> (\<forall>x\<in>set post. snd best \<le> snd x))"

lemma earliestMinimum_single: "earliestMinimum x [x]"
  unfolding earliestMinimum_def by (rule exI [of _ "[]"], rule exI [of _ "[]"]) simp

lemma earliestMinimum_keep:
  assumes "earliestMinimum r (x # rest)" and "snd x \<le> snd y"
  shows "earliestMinimum r (x # y # rest)"
proof -
  from assms(1) obtain pre post where sp: "x # rest = pre @ r # post"
    and lt: "\<forall>z\<in>set pre. snd r < snd z" and le: "\<forall>z\<in>set post. snd r \<le> snd z"
    unfolding earliestMinimum_def by blast
  show ?thesis
  proof (cases pre)
    case Nil
    with sp have "r = x" "post = rest"
      by simp_all
    with assms(2) le have "x # y # rest = [] @ r # (y # post)" "\<forall>z\<in>set (y # post). snd r \<le> snd z"
      by simp_all
    then show ?thesis
      unfolding earliestMinimum_def by (metis empty_iff list.set(1))
  next
    case (Cons a pre')
    with sp have a: "a = x" and rest: "rest = pre' @ r # post"
      by simp_all
    from lt Cons a have "snd r < snd x"
      by simp
    with assms(2) have "snd r < snd y"
      by simp
    with lt Cons a have "\<forall>z\<in>set (x # y # pre'). snd r < snd z"
      by simp
    moreover have "x # y # rest = (x # y # pre') @ r # post"
      by (simp add: rest)
    ultimately show ?thesis
      unfolding earliestMinimum_def using le by blast
  qed
qed

lemma earliestMinimum_replace:
  assumes "earliestMinimum r (y # rest)" and "snd y < snd x"
  shows "earliestMinimum r (x # y # rest)"
proof -
  from assms(1) obtain pre post where sp: "y # rest = pre @ r # post"
    and lt: "\<forall>z\<in>set pre. snd r < snd z" and le: "\<forall>z\<in>set post. snd r \<le> snd z"
    unfolding earliestMinimum_def by blast
  have "snd r \<le> snd y"
  proof (cases pre)
    case Nil
    with sp show ?thesis by simp
  next
    case (Cons a pre')
    with sp lt show ?thesis by simp
  qed
  with assms(2) have "snd r < snd x"
    by simp
  with lt have "\<forall>z\<in>set (x # pre). snd r < snd z"
    by simp
  moreover have "x # y # rest = (x # pre) @ r # post"
    by (simp add: sp)
  ultimately show ?thesis
    unfolding earliestMinimum_def using le by blast
qed

lemma trials_earliestMinimum:
  "earliestMinimum
     (fst (trials n u temp rng c bestCuts bestWaste), fst (snd (trials n u temp rng c bestCuts bestWaste)))
     ((bestCuts, bestWaste) # trialResults n u temp rng c)"
proof (induction n arbitrary: temp c bestCuts bestWaste)
  case 0
  show ?case by (simp add: earliestMinimum_single)
next
  case (Suc n)
  obtain temp' c' where sh: "shuffle temp rng c = (temp', c')"
    by (cases "shuffle temp rng c")
  obtain cur used where ac: "accumulate u temp' [] 0 = (cur, used)"
    by (cases "accumulate u temp' [] 0")
  have tr: "trialResults (Suc n) u temp rng c = (cur, u - used) # trialResults n u temp' rng c'"
    by (simp add: sh ac)
  show ?case
  proof (cases "u - used < bestWaste")
    case True
    then have step: "trials (Suc n) u temp rng c bestCuts bestWaste = trials n u temp' rng c' cur (u - used)"
      by (simp add: sh ac Let_def)
    from Suc.IH [of temp' c' cur "u - used"] True show ?thesis
      unfolding step tr by (intro earliestMinimum_replace) simp_all
  next
    case False
    then have step: "trials (Suc n) u temp rng c bestCuts bestWaste = trials n u temp' rng c' bestCuts bestWaste"
      by (simp add: sh ac Let_def)
    from Suc.IH [of temp' c' bestCuts bestWaste] False show ?thesis
      unfolding step tr by (intro earliestMinimum_keep) simp_all
  qed
qed


text \<open>
  Claim C3: in \<open>MINIMIZE_WASTE\<close> mode, for every pool and every sequence of draws, the waste
  recorded for the chosen cuts is the usable length minus their total and is at most the waste
  of the first-fit-decreasing baseline on the same pool; the chosen cuts are the earliest
  candidate of minimal waste in the sequence that starts with the baseline and continues with
  the trials (none when at most one instance remains), since the incumbent is replaced only
  on strict improvement; and on a non-empty pool of instances within the usable length the
  loop commits exactly these cuts as the next layout.
\<close>

theorem minimize_waste_not_worse_than_baseline:
  "fst (snd (chooseCuts u MINIMIZE_WASTE pool rng c))
     = u - totalEffective (fst (chooseCuts u MINIMIZE_WASTE pool rng c)) \<and>
   u - totalEffective (fst (chooseCuts u MINIMIZE_WASTE pool rng c))
     \<le> u - totalEffective (fst (accumulate u (sortByEffectiveLength pool) [] 0)) \<and>
   earliestMinimum
     (fst (chooseCuts u MINIMIZE_WASTE pool rng c), fst (snd (chooseCuts u MINIMIZE_WASTE pool rng c)))
     ((fst (accumulate u (sortByEffectiveLength pool) [] 0),
       u - totalEffective (fst (accumulate u (sortByEffectiveLength pool) [] 0))) #
      (if length pool > 1 then trialResults SHUFFLE_ITERATIONS u pool rng c else [])) \<and>
   (pool \<noteq> [] \<and> (\<forall>piece\<in>set pool. c_effectiveLength piece \<le> u) \<longrightarrow>
      fillBars u stockLength MINIMIZE_WASTE rng rawMaterial partsInGroup pool layouts idx unplaced c =
        fillBars u stockLength MINIMIZE_WASTE rng rawMaterial partsInGroup
          (removePlaced (fst (chooseCuts u MINIMIZE_WASTE pool rng c)) pool)
          (layouts @
             [newLayout idx stockLength (fst (chooseCuts u MINIMIZE_WASTE pool rng c)) rawMaterial])
          (idx + 1) unplaced (snd (snd (chooseCuts u MINIMIZE_WASTE pool rng c))) \<and>
      st_cuts (newLayout idx stockLength (fst (chooseCuts u MINIMIZE_WASTE pool rng c)) rawMaterial)
        = fst (chooseCuts u MINIMIZE_WASTE pool rng c))"
proof (intro conjI impI)
  let ?base = "accumulate u (sortByEffectiveLength pool) [] 0"
  have used: "snd ?base = totalEffective (fst ?base)"
    by (rule accumulate_used)
  show waste: "fst (snd (chooseCuts u MINIMIZE_WASTE pool rng c))
     = u - totalEffective (fst (chooseCuts u MINIMIZE_WASTE pool rng c))"
    using chooseCuts_barOk [of u MINIMIZE_WASTE pool rng c] by (simp add: barOk_def)
  show "u - totalEffective (fst (chooseCuts u MINIMIZE_WASTE pool rng c))
     \<le> u - totalEffective (fst ?base)"
    using chooseCuts_le_baseline [of u MINIMIZE_WASTE pool rng c] waste used by simp
  show "earliestMinimum
     (fst (chooseCuts u MINIMIZE_WASTE pool rng c), fst (snd (chooseCuts u MINIMIZE_WASTE pool rng c)))
     ((fst ?base, u - totalEffective (fst ?base)) #
      (if length pool > 1 then trialResults SHUFFLE_ITERATIONS u pool rng c else []))"
  proof -
    obtain g used' where ac: "?base = (g, used')"
      by (cases ?base)
    with used have gu: "used' = totalEffective g"
      by simp
    show ?thesis
    proof (cases "length pool > 1")
      case True
      then have "chooseCuts u MINIMIZE_WASTE pool rng c
          = trials SHUFFLE_ITERATIONS u pool rng c g (u - totalEffective g)"
        by (simp add: chooseCuts_def ac gu)
      with True trials_earliestMinimum [of SHUFFLE_ITERATIONS u pool rng c g "u - totalEffective g"]
      show ?thesis
        by (simp add: ac)
    next
      case False
      then have "chooseCuts u MINIMIZE_WASTE pool rng c = (g, u - totalEffective g, c)"
        by (simp add: chooseCuts_def ac gu)
      with False show ?thesis
        by (simp add: ac earliestMinimum_single)
    qed
  qed
next
  assume "pool \<noteq> [] \<and> (\<forall>piece\<in>set pool. c_effectiveLength piece \<le> u)"
  then have ne: "pool \<noteq> []" and inv: "\<forall>piece\<in>set pool. c_effectiveLength piece \<le> u"
    by simp_all
  show "fillBars u stockLength MINIMIZE_WASTE rng rawMaterial partsInGroup pool layouts idx unplaced c =
        fillBars u stockLength MINIMIZE_WASTE rng rawMaterial partsInGroup
          (removePlaced (fst (chooseCuts u MINIMIZE_WASTE pool rng c)) pool)
          (layouts @
             [newLayout idx stockLength (fst (chooseCuts u MINIMIZE_WASTE pool rng c)) rawMaterial])
          (idx + 1) unplaced (snd (snd (chooseCuts u MINIMIZE_WASTE pool rng c)))"
    by (rule fillBars_step [OF ne inv])
  show "st_cuts (newLayout idx stockLength (fst (chooseCuts u MINIMIZE_WASTE pool rng c)) rawMaterial)
        = fst (chooseCuts u MINIMIZE_WASTE pool rng c)"
    by (simp add: newLayout_def)
qed

theorem minimize_waste_not_worse_than_baseline_witness:
  "fst (rejectOrExpand integralOps 10 [bar6, bar5] [] []) \<noteq> []
   \<and> list_all (\<lambda>piece. c_effectiveLength piece \<le> 10)
       (fst (rejectOrExpand integralOps 10 [bar6, bar5] [] []))
   \<and> 10 - totalEffective (fst (accumulate 10
         (sortByEffectiveLength (fst (rejectOrExpand integralOps 10 [bar6, bar5] [] []))) [] 0)) = 4
   \<and> 10 - totalEffective (fst (chooseCuts 10 MINIMIZE_WASTE
         (fst (rejectOrExpand integralOps 10 [bar6, bar5] [] [])) (\<lambda>n. n) 0)) \<le> 4
   \<and> st_cuts (newLayout 1 10 (fst (chooseCuts 10 MINIMIZE_WASTE
         (fst (rejectOrExpand integralOps 10 [bar6, bar5] [] [])) (\<lambda>n. n) 0)) ''A'')
       = fst (chooseCuts 10 MINIMIZE_WASTE
           (fst (rejectOrExpand integralOps 10 [bar6, bar5] [] [])) (\<lambda>n. n) 0)
   \<and> fst (snd (chooseCuts 10 MINIMIZE_WASTE
         (fst (rejectOrExpand integralOps 10 [bar6, bar5] [] [])) (\<lambda>n. n) 0)) = 0
   \<and> map_sum id (map st_usedLength \<circ> lr_layouts)
         (performLinearNesting integralOps (\<lambda>n. n) 10 [bar6, bar5] MINIMIZE_WASTE 0 0)
       = Inr [10, 6]"
proof -
  let ?pool = "fst (rejectOrExpand integralOps 10 [bar6, bar5] [] [])"
  have ne: "?pool \<noteq> []"
    by code_simp
  have fits: "list_all (\<lambda>piece. c_effectiveLength piece \<le> 10) ?pool"
    by code_simp
  then have inv: "\<forall>piece\<in>set ?pool. c_effectiveLength piece \<le> 10"
    by (simp add: list_all_iff)
  have base: "10 - totalEffective (fst (accumulate 10 (sortByEffectiveLength ?pool) [] 0)) = 4"
    by code_simp
  have chosen: "fst (snd (chooseCuts 10 MINIMIZE_WASTE ?pool (\<lambda>n. n) 0)) = 0"
    by code_simp
  have run: "map_sum id (map st_usedLength \<circ> lr_layouts)
         (performLinearNesting integralOps (\<lambda>n. n) 10 [bar6, bar5] MINIMIZE_WASTE 0 0)
       = Inr [10, 6]"
    by code_simp
  from minimize_waste_not_worse_than_baseline [where u = 10 and pool = ?pool and rng = "\<lambda>n. n"
      and c = 0 and stockLength = 10 and rawMaterial = "''A''" and idx = 1] ne inv
  have le: "10 - totalEffective (fst (chooseCuts 10 MINIMIZE_WASTE ?pool (\<lambda>n. n) 0))
     \<le> 10 - totalEffective (fst (accumulate 10 (sortByEffectiveLength ?pool) [] 0))"
    and commit: "st_cuts (newLayout 1 10 (fst (chooseCuts 10 MINIMIZE_WASTE ?pool (\<lambda>n. n) 0)) ''A'')
       = fst (chooseCuts 10 MINIMIZE_WASTE ?pool (\<lambda>n. n) 0)"
    by blast+
  from le base have "10 - totalEffective (fst (chooseCuts 10 MINIMIZE_WASTE ?pool (\<lambda>n. n) 0)) \<le> 4"
    by simp
  with ne fits base commit chosen run show ?thesis
    by blast
qed


end
